theory Spec2Isabelle
  imports Complex_Main "HOL-Library.Multiset"
begin

section \<open>Runtime model\<close>

text \<open>
  The services are asynchronous JavaScript functions that share one Supabase client,
  a logger and the process environment. An asynchronous function is modelled as a
  state transformer over a \<open>world\<close>: it returns \<open>Inl e\<close> when its promise rejects
  with \<open>e\<close> (an exception leaves the function) and \<open>Inr a\<close> when it resolves to
  \<open>a\<close>. Times are JavaScript time values: integer milliseconds since the epoch.
\<close>

datatype js_error = Error string | RangeError string

datatype level = Info | Warn | Err

datatype log_entry = Log level string

datatype provider_id = GoogleMaps | Mapbox | OpenStreetMap

text \<open>
  One row of the \<open>cache\<close> table (\<open>key VARCHAR PRIMARY KEY, value JSONB NOT NULL,
  expires_at TIMESTAMPTZ NOT NULL\<close>). The key is the primary key, so the table is a
  partial map from keys to rows. \<open>'v\<close> is the type of the (non-null) JSON payloads.
\<close>

record 'v cache_row =
  row_value :: 'v
  expires_at :: int

type_synonym 'v cache_table = "string \<rightharpoonup> 'v cache_row"

text \<open>
  \<open>supabase\<close> is the module-level client handle of \<open>database.js\<close>: \<open>None\<close> when the
  credentials are missing (demo mode), otherwise the handle, through which the cache
  table is reached. \<open>logged\<close> is what the logger has received. \<open>invoked\<close> is an
  instrumentation field: every geocoding provider function appends its own tag on
  entry, so that the order of provider calls can be stated.
\<close>

record 'v world =
  supabase :: "'v cache_table option"
  logged :: "log_entry list"
  invoked :: "provider_id list"

type_synonym ('a, 'v) prog = "'v world \<Rightarrow> (js_error + 'a) \<times> 'v world"

definition return :: "'a \<Rightarrow> ('a, 'v) prog" where
  "return a w = (Inr a, w)"

definition throw :: "js_error \<Rightarrow> ('a, 'v) prog" where
  "throw e w = (Inl e, w)"

definition await :: "('a, 'v) prog \<Rightarrow> ('a \<Rightarrow> ('b, 'v) prog) \<Rightarrow> ('b, 'v) prog" where
  "await p k w = (case p w of (Inl e, w') \<Rightarrow> (Inl e, w') | (Inr a, w') \<Rightarrow> k a w')"

definition try_catch :: "('a, 'v) prog \<Rightarrow> (js_error \<Rightarrow> ('a, 'v) prog) \<Rightarrow> ('a, 'v) prog" where
  "try_catch body handler w =
     (case body w of (Inl e, w') \<Rightarrow> handler e w' | (Inr a, w') \<Rightarrow> (Inr a, w'))"

text \<open>
  \<open>logger.info\<close>, \<open>logger.warn\<close> and \<open>logger.error\<close> record the level and the message
  text; an error object passed as a further argument and interpolated coordinates
  are left out of the record.
\<close>

definition logger :: "level \<Rightarrow> string \<Rightarrow> (unit, 'v) prog" where
  "logger lv msg w = (Inr (), w\<lparr>logged := logged w @ [Log lv msg]\<rparr>)"

subsection \<open>The Supabase queries used by the cache\<close>

text \<open>
  A query either resolves to \<open>{data, error}\<close> or rejects. The outcome of the storage
  layer is an input of the model: \<open>NoFault\<close> performs the query, \<open>ErrorResult\<close>
  resolves with \<open>error\<close> set and \<open>Throws e\<close> rejects; a failed query leaves the table
  as it was.
\<close>

datatype fault = NoFault | ErrorResult | Throws js_error

datatype 'a response = Response (data: "'a option") (error: bool)

text \<open>\<open>from('cache').select(...).eq('key', key).single()\<close>: no row is an error of \<open>single\<close>.\<close>

definition select_single :: "fault \<Rightarrow> 'v cache_table \<Rightarrow> string \<Rightarrow> js_error + 'v cache_row response" where
  "select_single f tbl key =
     (case f of
        Throws e \<Rightarrow> Inl e
      | ErrorResult \<Rightarrow> Inr (Response None True)
      | NoFault \<Rightarrow>
          (case tbl key of
             None \<Rightarrow> Inr (Response None True)
           | Some row \<Rightarrow> Inr (Response (Some row) False)))"

text \<open>\<open>from('cache').upsert({key, value, expires_at})\<close>: insert, or replace the row of the key.\<close>

definition upsert :: "fault \<Rightarrow> 'v cache_table \<Rightarrow> string \<Rightarrow> 'v cache_row \<Rightarrow> (js_error + unit response) \<times> 'v cache_table" where
  "upsert f tbl key row =
     (case f of
        Throws e \<Rightarrow> (Inl e, tbl)
      | ErrorResult \<Rightarrow> (Inr (Response None True), tbl)
      | NoFault \<Rightarrow> (Inr (Response None False), tbl(key \<mapsto> row)))"

text \<open>\<open>from('cache').delete().eq('key', key)\<close>.\<close>

definition delete_eq :: "fault \<Rightarrow> 'v cache_table \<Rightarrow> string \<Rightarrow> (js_error + unit response) \<times> 'v cache_table" where
  "delete_eq f tbl key =
     (case f of
        Throws e \<Rightarrow> (Inl e, tbl)
      | ErrorResult \<Rightarrow> (Inr (Response None True), tbl)
      | NoFault \<Rightarrow> (Inr (Response None False), tbl(key := None)))"

text \<open>\<open>from('cache').delete().lt('expires_at', now)\<close>.\<close>

definition delete_lt :: "fault \<Rightarrow> 'v cache_table \<Rightarrow> int \<Rightarrow> (js_error + unit response) \<times> 'v cache_table" where
  "delete_lt f tbl now =
     (case f of
        Throws e \<Rightarrow> (Inl e, tbl)
      | ErrorResult \<Rightarrow> (Inr (Response None True), tbl)
      | NoFault \<Rightarrow>
          (Inr (Response None False),
           (\<lambda>k. case tbl k of
                  None \<Rightarrow> None
                | Some row \<Rightarrow> if expires_at row < now then None else Some row)))"

section \<open>Cache utilities (database.js)\<close>

text \<open>
  \<open>getFromCache(key)\<close>. \<open>fsel\<close> and \<open>fdel\<close> are the outcomes of the select and of the
  delete, \<open>now\<close> is the value of \<open>new Date()\<close> in the expiry test. \<open>None\<close> is \<open>null\<close>.
\<close>

definition getFromCache_try :: "fault \<Rightarrow> fault \<Rightarrow> int \<Rightarrow> string \<Rightarrow> ('v option, 'v) prog" where
  "getFromCache_try fsel fdel now key w =
     (case supabase w of
        None \<Rightarrow> return None w
      | Some tbl \<Rightarrow>
          (case select_single fsel tbl key of
             Inl e \<Rightarrow> throw e w
           | Inr r \<Rightarrow>
               (case data r of
                  None \<Rightarrow> return None w
                | Some row \<Rightarrow>
                    if error r then return None w
                    else if expires_at row < now then
                      (case delete_eq fdel tbl key of
                         (Inl e, tbl') \<Rightarrow> throw e (w\<lparr>supabase := Some tbl'\<rparr>)
                       | (Inr _, tbl') \<Rightarrow> return None (w\<lparr>supabase := Some tbl'\<rparr>))
                    else return (Some (row_value row)) w)))"

definition getFromCache :: "fault \<Rightarrow> fault \<Rightarrow> int \<Rightarrow> string \<Rightarrow> ('v option, 'v) prog" where
  "getFromCache fsel fdel now key =
     try_catch (getFromCache_try fsel fdel now key)
       (\<lambda>e. await (logger Err ''Cache retrieval error:'') (\<lambda>_. return None))"

text \<open>
  \<open>toISOString\<close> raises a RangeError on a time value outside the range of Date
  (more than 8.64e15 ms from the epoch).
\<close>

definition valid_time :: "int \<Rightarrow> bool" where
  "valid_time t = (\<bar>t\<bar> \<le> 8640000000000000)"

text \<open>
  \<open>setCache(key, value, ttlSeconds = 3600)\<close>. \<open>fups\<close> is the outcome of the upsert,
  \<open>now\<close> the value of \<open>Date.now()\<close>; \<open>ttlSeconds = None\<close> is an omitted argument.
\<close>

definition setCache_try :: "fault \<Rightarrow> int \<Rightarrow> string \<Rightarrow> 'v \<Rightarrow> int option \<Rightarrow> (unit, 'v) prog" where
  "setCache_try fups now key v ttlSeconds w =
     (case supabase w of
        None \<Rightarrow> return () w
      | Some tbl \<Rightarrow>
          (let ttl = (case ttlSeconds of None \<Rightarrow> 3600 | Some t \<Rightarrow> t);
               expiresAt = now + ttl * 1000
           in if \<not> valid_time expiresAt then throw (RangeError ''Invalid time value'') w
              else
                (case upsert fups tbl key \<lparr>row_value = v, expires_at = expiresAt\<rparr> of
                   (Inl e, tbl') \<Rightarrow> throw e (w\<lparr>supabase := Some tbl'\<rparr>)
                 | (Inr r, tbl') \<Rightarrow>
                     if error r then logger Err ''Cache storage error:'' (w\<lparr>supabase := Some tbl'\<rparr>)
                     else return () (w\<lparr>supabase := Some tbl'\<rparr>))))"

definition setCache :: "fault \<Rightarrow> int \<Rightarrow> string \<Rightarrow> 'v \<Rightarrow> int option \<Rightarrow> (unit, 'v) prog" where
  "setCache fups now key v ttlSeconds =
     try_catch (setCache_try fups now key v ttlSeconds)
       (\<lambda>e. logger Err ''Cache storage error:'')"

text \<open>\<open>cleanupExpiredCache()\<close>. \<open>fdel\<close> is the outcome of the delete, \<open>now\<close> is \<open>new Date()\<close>.\<close>

definition cleanupExpiredCache_try :: "fault \<Rightarrow> int \<Rightarrow> (unit, 'v) prog" where
  "cleanupExpiredCache_try fdel now w =
     (case supabase w of
        None \<Rightarrow> return () w
      | Some tbl \<Rightarrow>
          (case delete_lt fdel tbl now of
             (Inl e, tbl') \<Rightarrow> throw e (w\<lparr>supabase := Some tbl'\<rparr>)
           | (Inr r, tbl') \<Rightarrow>
               if error r then logger Err ''Cache cleanup error:'' (w\<lparr>supabase := Some tbl'\<rparr>)
               else logger Info ''Expired cache entries cleaned up'' (w\<lparr>supabase := Some tbl'\<rparr>)))"

definition cleanupExpiredCache :: "fault \<Rightarrow> int \<Rightarrow> (unit, 'v) prog" where
  "cleanupExpiredCache fdel now =
     try_catch (cleanupExpiredCache_try fdel now) (\<lambda>e. logger Err ''Cache cleanup error:'')"

section \<open>Geocoding (services/geocoding.js)\<close>

subsection \<open>Cache keys\<close>

text \<open>
  \<open>Buffer.from(text).toString('base64')\<close>: a \<open>string\<close> is the list of the UTF-8 bytes
  of the text, encoded three bytes at a time over the standard alphabet, padded
  with \<open>=\<close>.
\<close>

definition b64_alphabet :: string where
  "b64_alphabet = ''ABCDEFGHIJKLMNOPQRSTUVWXYZabcdefghijklmnopqrstuvwxyz0123456789+/''"

definition b64_digit :: "nat \<Rightarrow> char" where
  "b64_digit n = b64_alphabet ! n"

fun base64_bytes :: "nat list \<Rightarrow> string" where
  "base64_bytes [] = []"
| "base64_bytes [a] =
     [b64_digit (a div 4), b64_digit ((a mod 4) * 16), CHR ''='', CHR ''='']"
| "base64_bytes [a, b] =
     [b64_digit (a div 4), b64_digit ((a mod 4) * 16 + b div 16),
      b64_digit ((b mod 16) * 4), CHR ''='']"
| "base64_bytes (a # b # c # rest) =
     [b64_digit (a div 4), b64_digit ((a mod 4) * 16 + b div 16),
      b64_digit ((b mod 16) * 4 + c div 64), b64_digit (c mod 64)] @ base64_bytes rest"

definition base64 :: "string \<Rightarrow> string" where
  "base64 text = base64_bytes (map of_char text)"

definition google_cacheKey :: "string \<Rightarrow> string" where
  "google_cacheKey locationName = ''geocode_google_'' @ base64 locationName"

definition mapbox_cacheKey :: "string \<Rightarrow> string" where
  "mapbox_cacheKey locationName = ''geocode_mapbox_'' @ base64 locationName"

definition osm_cacheKey :: "string \<Rightarrow> string" where
  "osm_cacheKey locationName = ''geocode_osm_'' @ base64 locationName"

text \<open>
  A JavaScript number as \<open>Number::toString\<close> sees it. A finite number other than
  zero is given by its sign, the decimal digits of its shortest representation
  that reads back as the same number (most significant digit first, \<open>k\<close> digits)
  and the exponent \<open>n\<close>: its magnitude is \<open>0.d1 ... dk\<close> times ten to the \<open>n\<close>.
  Different numbers have different representations; the two zeros print alike and
  are one value here. The number \<open>40.7128\<close> is
  \<open>JsFinite False [4, 0, 7, 1, 2, 8] 2\<close>.
\<close>

datatype js_number = JsNaN | JsInfinity bool | JsZero | JsFinite bool "nat list" int

text \<open>
  The digits of a shortest representation: at least one, each below ten, the first
  not zero, and the last not zero (a shorter one would do otherwise).
\<close>

definition shortest_digits :: "nat list \<Rightarrow> bool" where
  "shortest_digits ds = (ds \<noteq> [] \<and> list_all (\<lambda>d. d < 10) ds \<and> hd ds \<noteq> 0 \<and> last ds \<noteq> 0)"

fun proper_number :: "js_number \<Rightarrow> bool" where
  "proper_number (JsFinite negative ds n) = shortest_digits ds"
| "proper_number x = True"

definition digit_char :: "nat \<Rightarrow> char" where
  "digit_char d = char_of (48 + d)"

text \<open>The decimal digits of a natural number (the exponent part).\<close>

fun decimal :: "nat \<Rightarrow> string" where
  "decimal m = (if m < 10 then [digit_char m] else decimal (m div 10) @ [digit_char (m mod 10)])"

declare decimal.simps [simp del]

text \<open>
  \<open>Number::toString\<close> for radix 10 (ECMAScript, steps 6 to 10) on the digits and
  the exponent of a positive number: an integer, a decimal fraction, a fraction
  below one with up to five zeros after the point, or the exponent notation.
\<close>

definition number_body :: "nat list \<Rightarrow> int \<Rightarrow> string" where
  "number_body ds n =
     (let k = int (length ds); digits = map digit_char ds
      in if k \<le> n \<and> n \<le> 21 then digits @ replicate (nat (n - k)) (CHR ''0'')
         else if 0 < n \<and> n \<le> 21 then take (nat n) digits @ ''.'' @ drop (nat n) digits
         else if - 6 < n \<and> n \<le> 0 then ''0.'' @ replicate (nat (- n)) (CHR ''0'') @ digits
         else
           (let e = n - 1; c = (if e < 0 then ''-'' else ''+'')
            in if k = 1 then digits @ ''e'' @ c @ decimal (nat \<bar>e\<bar>)
               else take 1 digits @ ''.'' @ drop 1 digits @ ''e'' @ c @ decimal (nat \<bar>e\<bar>)))"

fun Number_toString :: "js_number \<Rightarrow> string" where
  "Number_toString JsNaN = ''NaN''"
| "Number_toString JsZero = ''0''"
| "Number_toString (JsInfinity negative) = (if negative then ''-Infinity'' else ''Infinity'')"
| "Number_toString (JsFinite negative ds n) = (if negative then ''-'' else []) @ number_body ds n"

text \<open>
  \<open>reverseGeocode\<close>: \<open>`reverse_geocode_${latitude}_${longitude}`\<close>, the two numbers
  converted by \<open>Number::toString\<close> as they are.
\<close>

definition reverse_cacheKey :: "js_number \<Rightarrow> js_number \<Rightarrow> string" where
  "reverse_cacheKey latitude_arg longitude_arg =
     ''reverse_geocode_'' @ Number_toString latitude_arg @ ''_'' @ Number_toString longitude_arg"

subsection \<open>Providers\<close>

text \<open>
  Coordinates and scores are JavaScript numbers, modelled as reals. \<open>geo_error\<close>
  is the optional \<open>error\<close> field of a result.
\<close>

record geocode_data =
  locationName :: string
  latitude :: real
  longitude :: real
  formattedAddress :: string
  confidence :: string
  provider :: string
  geo_error :: "string option"
  timestamp :: int

record env =
  GOOGLE_MAPS_API_KEY :: "string option"
  MAPBOX_ACCESS_TOKEN :: "string option"

text \<open>Truthiness of an environment variable: set and not the empty string.\<close>

definition truthy :: "string option \<Rightarrow> bool" where
  "truthy v = (case v of None \<Rightarrow> False | Some s \<Rightarrow> s \<noteq> [])"

text \<open>
  The payloads of the three services, with the fields the code reads. The model
  covers payloads of this shape; a rejected request, whatever its cause, is the
  case \<open>Inl\<close> of the request.
\<close>

record google_result =
  location_lat :: real
  location_lng :: real
  formatted_address :: string
  location_type :: string

record google_response =
  status :: string
  results :: "google_result list"

record mapbox_feature =
  center0 :: real
  center1 :: real
  place_name :: string
  relevance :: real

record mapbox_response =
  features :: "mapbox_feature list option"

record osm_result =
  lat :: real
  lon :: real
  display_name :: string
  importance :: real

text \<open>
  What the outside world does during one provider call: the outcomes of the cache
  queries, the outcome of the HTTP request (\<open>Inl\<close>: axios rejects) and the clock
  readings at the cache lookup, at the result's timestamp and at the cache write.
\<close>

record 'r run =
  select_fault :: fault
  delete_fault :: fault
  t_lookup :: int
  http :: "js_error + 'r"
  t_stamp :: int
  t_store :: int
  upsert_fault :: fault

definition enter :: "provider_id \<Rightarrow> (unit, 'v) prog" where
  "enter p w = (Inr (), w\<lparr>invoked := invoked w @ [p]\<rparr>)"

definition geocodeWithGoogleMaps :: "env \<Rightarrow> google_response run \<Rightarrow> string \<Rightarrow> (geocode_data, geocode_data) prog" where
  "geocodeWithGoogleMaps ev r locName =
     await (enter GoogleMaps) (\<lambda>_.
     try_catch
       (await (getFromCache (select_fault r) (delete_fault r) (t_lookup r) (google_cacheKey locName))
          (\<lambda>cached. case cached of
             Some c \<Rightarrow> await (logger Info ''Geocoding cache hit (Google Maps)'') (\<lambda>_. return c)
           | None \<Rightarrow>
               if \<not> truthy (GOOGLE_MAPS_API_KEY ev)
               then throw (Error ''Google Maps API key not configured'')
               else
                 (case http r of
                    Inl e \<Rightarrow> throw e
                  | Inr resp \<Rightarrow>
                      if status resp \<noteq> ''OK'' \<or> results resp = []
                      then throw (Error (''Geocoding failed: '' @ status resp))
                      else
                        (let result = hd (results resp);
                             geocodeData =
                               \<lparr>locationName = locName,
                                latitude = location_lat result,
                                longitude = location_lng result,
                                formattedAddress = formatted_address result,
                                confidence = (if location_type result = ''ROOFTOP'' then ''high'' else ''medium''),
                                provider = ''google_maps'',
                                geo_error = None,
                                timestamp = t_stamp r\<rparr>
                         in await (setCache (upsert_fault r) (t_store r) (google_cacheKey locName) geocodeData (Some 86400))
                              (\<lambda>_. await (logger Info (''Geocoded with Google Maps: '' @ locName))
                              (\<lambda>_. return geocodeData))))))
       (\<lambda>e. await (logger Err ''Google Maps geocoding error:'') (\<lambda>_. throw e)))"

definition geocodeWithMapbox :: "env \<Rightarrow> mapbox_response run \<Rightarrow> string \<Rightarrow> (geocode_data, geocode_data) prog" where
  "geocodeWithMapbox ev r locName =
     await (enter Mapbox) (\<lambda>_.
     try_catch
       (await (getFromCache (select_fault r) (delete_fault r) (t_lookup r) (mapbox_cacheKey locName))
          (\<lambda>cached. case cached of
             Some c \<Rightarrow> await (logger Info ''Geocoding cache hit (Mapbox)'') (\<lambda>_. return c)
           | None \<Rightarrow>
               if \<not> truthy (MAPBOX_ACCESS_TOKEN ev)
               then throw (Error ''Mapbox access token not configured'')
               else
                 (case http r of
                    Inl e \<Rightarrow> throw e
                  | Inr resp \<Rightarrow>
                      (case features resp of
                         None \<Rightarrow> throw (Error ''No geocoding results found'')
                       | Some [] \<Rightarrow> throw (Error ''No geocoding results found'')
                       | Some (result # _) \<Rightarrow>
                           (let geocodeData =
                              \<lparr>locationName = locName,
                               latitude = center1 result,
                               longitude = center0 result,
                               formattedAddress = place_name result,
                               confidence = (if relevance result > 0.8 then ''high'' else ''medium''),
                               provider = ''mapbox'',
                               geo_error = None,
                               timestamp = t_stamp r\<rparr>
                            in await (setCache (upsert_fault r) (t_store r) (mapbox_cacheKey locName) geocodeData (Some 86400))
                                 (\<lambda>_. await (logger Info (''Geocoded with Mapbox: '' @ locName))
                                 (\<lambda>_. return geocodeData)))))))
       (\<lambda>e. await (logger Err ''Mapbox geocoding error:'') (\<lambda>_. throw e)))"

text \<open>The Nominatim payload is an array, or missing; \<open>lat\<close> and \<open>lon\<close> are the parsed numbers.\<close>

definition geocodeWithOSM :: "osm_result list option run \<Rightarrow> string \<Rightarrow> (geocode_data, geocode_data) prog" where
  "geocodeWithOSM r locName =
     await (enter OpenStreetMap) (\<lambda>_.
     try_catch
       (await (getFromCache (select_fault r) (delete_fault r) (t_lookup r) (osm_cacheKey locName))
          (\<lambda>cached. case cached of
             Some c \<Rightarrow> await (logger Info ''Geocoding cache hit (OSM)'') (\<lambda>_. return c)
           | None \<Rightarrow>
               (case http r of
                  Inl e \<Rightarrow> throw e
                | Inr None \<Rightarrow> throw (Error ''No geocoding results found'')
                | Inr (Some []) \<Rightarrow> throw (Error ''No geocoding results found'')
                | Inr (Some (result # _)) \<Rightarrow>
                    (let geocodeData =
                       \<lparr>locationName = locName,
                        latitude = lat result,
                        longitude = lon result,
                        formattedAddress = display_name result,
                        confidence = (if importance result > 0.5 then ''high'' else ''medium''),
                        provider = ''openstreetmap'',
                        geo_error = None,
                        timestamp = t_stamp r\<rparr>
                     in await (setCache (upsert_fault r) (t_store r) (osm_cacheKey locName) geocodeData (Some 86400))
                          (\<lambda>_. await (logger Info (''Geocoded with OSM: '' @ locName))
                          (\<lambda>_. return geocodeData))))))
       (\<lambda>e. await (logger Err ''OSM geocoding error:'') (\<lambda>_. throw e)))"

subsection \<open>The fallback chain\<close>

text \<open>
  The two guarded blocks of \<open>geocodeLocation\<close>,
  \<open>if (credential) { try { return await provider(...) } catch { logger.warn(...) } }\<close>:
  \<open>Some d\<close> when the block returns \<open>d\<close> from \<open>geocodeLocation\<close>, \<open>None\<close> when control
  falls through to the next block.
\<close>

definition try_google :: "env \<Rightarrow> google_response run \<Rightarrow> string \<Rightarrow> (geocode_data option, geocode_data) prog" where
  "try_google ev r locName =
     (if truthy (GOOGLE_MAPS_API_KEY ev)
      then try_catch
             (await (geocodeWithGoogleMaps ev r locName) (\<lambda>d. return (Some d)))
             (\<lambda>e. await (logger Warn ''Google Maps geocoding failed, trying Mapbox...'') (\<lambda>_. return None))
      else return None)"

definition try_mapbox :: "env \<Rightarrow> mapbox_response run \<Rightarrow> string \<Rightarrow> (geocode_data option, geocode_data) prog" where
  "try_mapbox ev r locName =
     (if truthy (MAPBOX_ACCESS_TOKEN ev)
      then try_catch
             (await (geocodeWithMapbox ev r locName) (\<lambda>d. return (Some d)))
             (\<lambda>e. await (logger Warn ''Mapbox geocoding failed, trying OpenStreetMap...'') (\<lambda>_. return None))
      else return None)"

text \<open>
  The degraded result of the outer \<open>catch\<close>. \<open>rand_lat\<close> and \<open>rand_lon\<close> are the two
  values of \<open>Math.random()\<close>, \<open>t_mock\<close> the clock reading.
\<close>

record jitter =
  rand_lat :: real
  rand_lon :: real
  t_mock :: int

definition mock_location :: "jitter \<Rightarrow> string \<Rightarrow> geocode_data" where
  "mock_location j locName =
     \<lparr>locationName = locName,
      latitude = 40.7128 + (rand_lat j - 0.5) * 0.1,
      longitude = - 74.0060 + (rand_lon j - 0.5) * 0.1,
      formattedAddress = locName @ '' (Mock Location)'',
      confidence = ''low'',
      provider = ''mock'',
      geo_error = Some ''All geocoding providers failed'',
      timestamp = t_mock j\<rparr>"

definition geocodeLocation ::
  "env \<Rightarrow> google_response run \<Rightarrow> mapbox_response run \<Rightarrow> osm_result list option run \<Rightarrow> jitter \<Rightarrow>
   string \<Rightarrow> (geocode_data, geocode_data) prog" where
  "geocodeLocation ev gr mr osr j locName =
     try_catch
       (await (try_google ev gr locName) (\<lambda>g. case g of
          Some d \<Rightarrow> return d
        | None \<Rightarrow>
            await (try_mapbox ev mr locName) (\<lambda>m. case m of
              Some d \<Rightarrow> return d
            | None \<Rightarrow> geocodeWithOSM osr locName)))
       (\<lambda>e. await (logger Err ''All geocoding providers failed:'') (\<lambda>_. return (mock_location j locName)))"

section \<open>Sorting of aggregated items\<close>

text \<open>
  \<open>Array.prototype.sort(compareFn)\<close> is stable: an element stays before the later
  elements that compare equal to it. It is modelled by a stable insertion sort;
  \<open>compareFn a b \<le> 0\<close> keeps \<open>a\<close> before \<open>b\<close>.
\<close>

fun insert_by :: "('a \<Rightarrow> 'a \<Rightarrow> int) \<Rightarrow> 'a \<Rightarrow> 'a list \<Rightarrow> 'a list" where
  "insert_by compareFn x [] = [x]"
| "insert_by compareFn x (y # ys) =
     (if compareFn x y \<le> 0 then x # y # ys else y # insert_by compareFn x ys)"

definition array_sort :: "('a \<Rightarrow> 'a \<Rightarrow> int) \<Rightarrow> 'a list \<Rightarrow> 'a list" where
  "array_sort compareFn xs = foldr (insert_by compareFn) xs []"

subsection \<open>Official updates (services/officialUpdates.js)\<close>

text \<open>
  An update item; \<open>priority\<close> ranges over the four levels the service produces and
  \<open>published_at\<close> is the time value of the ISO date string.
\<close>

datatype priority_level = Critical | High | Medium | Low

record update_item =
  update_id :: string
  source :: string
  title :: string
  update_content :: string
  url :: string
  published_at :: int
  update_type :: string
  priority :: priority_level
  tags :: "string list"

fun priorityOrder :: "priority_level \<Rightarrow> int" where
  "priorityOrder Critical = 3"
| "priorityOrder High = 2"
| "priorityOrder Medium = 1"
| "priorityOrder Low = 0"

text \<open>The comparator of \<open>fetchOfficialUpdates\<close>.\<close>

definition compare_updates :: "update_item \<Rightarrow> update_item \<Rightarrow> int" where
  "compare_updates a b =
     (if priorityOrder (priority a) \<noteq> priorityOrder (priority b)
      then priorityOrder (priority b) - priorityOrder (priority a)
      else published_at b - published_at a)"

definition sortedUpdates :: "update_item list \<Rightarrow> update_item list" where
  "sortedUpdates filteredUpdates = array_sort compare_updates filteredUpdates"

subsection \<open>Social media posts (services/socialMedia.js)\<close>

record engagement_counts =
  likes :: int
  retweets :: int
  replies :: int

record post =
  post_id :: string
  user :: string
  username :: string
  content :: string
  post_timestamp :: int
  location :: string
  media :: "string list"
  engagement :: engagement_counts

record analysis_result =
  urgency :: string
  contentType :: string

record analyzed_post = post +
  analysis :: analysis_result
  post_priority :: int
  disaster_id :: string

text \<open>\<open>toLowerCase\<close> on the ASCII letters; the other bytes are left as they are.\<close>

definition lower_char :: "char \<Rightarrow> char" where
  "lower_char c =
     (let n = (of_char c :: nat) in if 65 \<le> n \<and> n \<le> 90 then char_of (n + 32) else c)"

definition toLowerCase :: "string \<Rightarrow> string" where
  "toLowerCase s = map lower_char s"

text \<open>\<open>s.includes(k)\<close>: \<open>k\<close> occurs in \<open>s\<close> as a contiguous substring.\<close>

fun str_includes :: "string \<Rightarrow> string \<Rightarrow> bool" where
  "str_includes [] k = (k = [])"
| "str_includes (c # cs) k = (take (length k) (c # cs) = k \<or> str_includes cs k)"

definition urgentKeywords :: "string list" where
  "urgentKeywords = [''SOS'', ''urgent'', ''emergency'', ''help'', ''rescue'', ''trapped'']"

definition calculatePriority :: "post \<Rightarrow> analysis_result \<Rightarrow> int" where
  "calculatePriority p a =
     (let priority0 = 5;
          priority1 = priority0 +
            (if urgency a = ''critical'' then 4
             else if urgency a = ''high'' then 3
             else if urgency a = ''medium'' then 2
             else if urgency a = ''low'' then 1
             else 0);
          priority2 = priority1 + (if contentType a = ''help_request'' then 2 else 0);
          priority3 = priority2 + (if contentType a = ''emergency_alert'' then 3 else 0);
          urgentMatches = length (filter
            (\<lambda>keyword. str_includes (toLowerCase (content p)) (toLowerCase keyword)) urgentKeywords);
          priority4 = priority3 + int urgentMatches;
          totalEngagement = likes (engagement p) + retweets (engagement p) + replies (engagement p);
          priority5 = priority4 + (if totalEngagement > 50 then 1 else 0);
          priority6 = priority5 + (if totalEngagement > 100 then 1 else 0)
      in min priority6 10)"

text \<open>The comparator of \<open>fetchSocialMediaReports\<close>.\<close>

definition compare_posts :: "analyzed_post \<Rightarrow> analyzed_post \<Rightarrow> int" where
  "compare_posts a b =
     (if post_priority a \<noteq> post_priority b
      then post_priority b - post_priority a
      else post_timestamp b - post_timestamp a)"

definition sortedPosts :: "analyzed_post list \<Rightarrow> analyzed_post list" where
  "sortedPosts analyzedPosts = array_sort compare_posts analyzedPosts"

section \<open>Concrete states used in the examples\<close>

definition empty_cache_world :: "string world" where
  "empty_cache_world = \<lparr>supabase = Some Map.empty, logged = [], invoked = []\<rparr>"

definition demo_world :: "string world" where
  "demo_world = \<lparr>supabase = None, logged = [], invoked = []\<rparr>"

definition two_entry_world :: "string world" where
  "two_entry_world =
     \<lparr>supabase = Some [''old'' \<mapsto> \<lparr>row_value = ''a'', expires_at = 10\<rparr>,
                        ''new'' \<mapsto> \<lparr>row_value = ''b'', expires_at = 100\<rparr>],
      logged = [], invoked = []\<rparr>"

definition both_keys :: env where
  "both_keys = \<lparr>GOOGLE_MAPS_API_KEY = Some ''google-key'', MAPBOX_ACCESS_TOKEN = Some ''mapbox-token''\<rparr>"

definition no_keys :: env where
  "no_keys = \<lparr>GOOGLE_MAPS_API_KEY = None, MAPBOX_ACCESS_TOKEN = None\<rparr>"

definition google_down :: "google_response run" where
  "google_down =
     \<lparr>select_fault = NoFault, delete_fault = NoFault, t_lookup = 1000,
      http = Inl (Error ''Request failed with status code 403''),
      t_stamp = 1200, t_store = 1201, upsert_fault = NoFault\<rparr>"

definition mapbox_up :: "mapbox_response run" where
  "mapbox_up =
     \<lparr>select_fault = NoFault, delete_fault = NoFault, t_lookup = 1300,
      http = Inr \<lparr>features = Some [\<lparr>center0 = - 73.97, center1 = 40.78,
                                      place_name = ''Manhattan, New York'', relevance = 0.9\<rparr>]\<rparr>,
      t_stamp = 1500, t_store = 1501, upsert_fault = NoFault\<rparr>"

definition mapbox_down :: "mapbox_response run" where
  "mapbox_down =
     \<lparr>select_fault = NoFault, delete_fault = NoFault, t_lookup = 1300,
      http = Inr \<lparr>features = Some []\<rparr>,
      t_stamp = 1500, t_store = 1501, upsert_fault = NoFault\<rparr>"

definition osm_up :: "osm_result list option run" where
  "osm_up =
     \<lparr>select_fault = NoFault, delete_fault = NoFault, t_lookup = 1600,
      http = Inr (Some [\<lparr>lat = 40.79, lon = - 73.96,
                          display_name = ''Manhattan, New York County'', importance = 0.4\<rparr>]),
      t_stamp = 1800, t_store = 1801, upsert_fault = NoFault\<rparr>"

definition osm_down :: "osm_result list option run" where
  "osm_down =
     \<lparr>select_fault = NoFault, delete_fault = NoFault, t_lookup = 1600,
      http = Inl (Error ''connect ETIMEDOUT''),
      t_stamp = 1800, t_store = 1801, upsert_fault = NoFault\<rparr>"

definition demo_jitter :: jitter where
  "demo_jitter = \<lparr>rand_lat = 0.25, rand_lon = 0.75, t_mock = 2000\<rparr>"

definition geo_world :: "geocode_data world" where
  "geo_world = \<lparr>supabase = Some Map.empty, logged = [], invoked = []\<rparr>"

definition geo_demo_world :: "geocode_data world" where
  "geo_demo_world = \<lparr>supabase = None, logged = [], invoked = []\<rparr>"

text \<open>Three updates: a low one (newest), a critical one (oldest) and a high one.\<close>

definition upd_low :: update_item where
  "upd_low =
     \<lparr>update_id = ''nyc_em_002'', source = ''NYC Emergency Management'', title = ''Parking rules suspended'',
      update_content = ''Alternate side parking is suspended.'', url = ''https://www1.nyc.gov/site/em/index.page'',
      published_at = 9000, update_type = ''local_government'', priority = Low, tags = []\<rparr>"

definition upd_critical :: update_item where
  "upd_critical =
     \<lparr>update_id = ''nyc_em_001'', source = ''NYC Emergency Management'', title = ''Flash Flood Warning'',
      update_content = ''Flash flood warning for all five boroughs.'', url = ''https://www1.nyc.gov/site/em/index.page'',
      published_at = 1000, update_type = ''local_government'', priority = Critical, tags = [''warning'']\<rparr>"

definition upd_high :: update_item where
  "upd_high =
     \<lparr>update_id = ''fema_001'', source = ''FEMA'', title = ''Major Disaster Declaration'',
      update_content = ''Federal assistance is now available.'', url = ''https://www.fema.gov/disaster/4673'',
      published_at = 5000, update_type = ''government'', priority = High, tags = [''federal_aid'']\<rparr>"

section \<open>Auxiliary predicates\<close>

text \<open>
  The base64 encoding as RFC 4648 words it: the bytes are written as bits, eight
  each, most significant first; the bits are cut into groups of six, the last one
  filled up with zero bits; each group is the index of a character of the
  alphabet; \<open>=\<close> characters fill the output up to a multiple of four.
\<close>

definition bits_of_byte :: "nat \<Rightarrow> bool list" where
  "bits_of_byte b = map (\<lambda>i. odd (b div 2 ^ i)) [7, 6, 5, 4, 3, 2, 1, 0]"

definition sextet_value :: "bool list \<Rightarrow> nat" where
  "sextet_value bs = foldl (\<lambda>v b. 2 * v + (if b then 1 else 0)) 0 bs"

fun sextets :: "bool list \<Rightarrow> bool list list" where
  "sextets [] = []"
| "sextets (b # bs) = take 6 (b # bs @ replicate 5 False) # sextets (drop 5 bs)"

definition base64_rfc :: "string \<Rightarrow> string" where
  "base64_rfc text =
     (let chars = map (\<lambda>g. b64_digit (sextet_value g))
                    (sextets (concat (map (\<lambda>c. bits_of_byte (of_char c)) text)))
      in chars @ replicate ((4 - length chars mod 4) mod 4) (CHR ''=''))"

text \<open>
  A reader for the output of \<open>number_body\<close>: the digits without leading and
  trailing zeros, and the position of the decimal point.
\<close>

definition digit_value :: "char \<Rightarrow> nat" where
  "digit_value c = of_char c - 48"

definition read_decimal :: "string \<Rightarrow> nat" where
  "read_decimal s = foldl (\<lambda>v c. 10 * v + digit_value c) 0 s"

definition read_body :: "string \<Rightarrow> nat list \<times> int" where
  "read_body b =
     (let mantissa = takeWhile (\<lambda>c. c \<noteq> CHR ''e'') b;
          exponent = drop 1 (dropWhile (\<lambda>c. c \<noteq> CHR ''e'') b);
          e = (case exponent of
                 [] \<Rightarrow> 0
               | c # cs \<Rightarrow> if c = CHR ''-'' then - int (read_decimal cs) else int (read_decimal cs));
          whole = takeWhile (\<lambda>c. c \<noteq> CHR ''.'') mantissa;
          fraction = drop 1 (dropWhile (\<lambda>c. c \<noteq> CHR ''.'') mantissa);
          ds = map digit_value (whole @ fraction);
          leading = length (takeWhile (\<lambda>d. d = 0) ds)
      in (rev (dropWhile (\<lambda>d. d = 0) (rev (dropWhile (\<lambda>d. d = 0) ds))),
          int (length whole) + e - int leading))"

text \<open>
  The value of a number, and the rounding of a value to \<open>d\<close> decimal places, to
  compare the keys of two coordinates that agree after rounding.
\<close>

definition digits_value :: "nat list \<Rightarrow> nat" where
  "digits_value ds = foldl (\<lambda>v d. 10 * v + d) 0 ds"

fun number_value :: "js_number \<Rightarrow> real option" where
  "number_value JsNaN = None"
| "number_value (JsInfinity negative) = None"
| "number_value JsZero = Some 0"
| "number_value (JsFinite negative ds n) =
     Some ((if negative then - 1 else 1) * real (digits_value ds) *
           (if int (length ds) \<le> n then 10 ^ nat (n - int (length ds))
            else 1 / 10 ^ nat (int (length ds) - n)))"

definition rounded_to :: "nat \<Rightarrow> real \<Rightarrow> real" where
  "rounded_to d x = real_of_int \<lfloor>x * 10 ^ d + 1 / 2\<rfloor> / 10 ^ d"

text \<open>A program that leaves the record of provider calls as it found it.\<close>

definition keeps_invoked :: "('a, 'v) prog \<Rightarrow> bool" where
  "keeps_invoked p = (\<forall>w. invoked (snd (p w)) = invoked w)"

section \<open>Properties of the cache\<close>

subsection \<open>Auxiliary facts\<close>

lemmas prog_defs = return_def throw_def await_def try_catch_def logger_def

lemmas query_defs = select_single_def upsert_def delete_eq_def delete_lt_def

lemma setCache_configured:
  assumes "supabase w = Some tbl" and "valid_time (now + t * 1000)"
  shows "setCache NoFault now key v (Some t) w =
           (Inr (), w\<lparr>supabase := Some (tbl(key \<mapsto> \<lparr>row_value = v, expires_at = now + t * 1000\<rparr>))\<rparr>)"
  using assms by (simp add: setCache_def setCache_try_def prog_defs query_defs)

lemma getFromCache_fresh:
  assumes "supabase w = Some tbl" and "tbl key = Some row" and "now \<le> expires_at row"
  shows "getFromCache NoFault fdel now key w = (Inr (Some (row_value row)), w)"
  using assms by (simp add: getFromCache_def getFromCache_try_def prog_defs query_defs)

lemma getFromCache_expired:
  assumes "supabase w = Some tbl" and "tbl key = Some row" and "expires_at row < now"
  shows "getFromCache NoFault NoFault now key w = (Inr None, w\<lparr>supabase := Some (tbl(key := None))\<rparr>)"
  using assms by (simp add: getFromCache_def getFromCache_try_def prog_defs query_defs)

lemma getFromCache_expired_absent:
  assumes "supabase w = Some tbl" and "tbl key = Some row" and "expires_at row < now"
  shows "fst (getFromCache NoFault fdel now key w) = Inr None"
  using assms by (cases fdel) (simp_all add: getFromCache_def getFromCache_try_def prog_defs query_defs)

lemma getFromCache_Some_unexpired:
  assumes "getFromCache fsel fdel now key w = (Inr (Some x), w')"
  shows "\<exists>tbl row. supabase w = Some tbl \<and> tbl key = Some row \<and> row_value row = x \<and> now \<le> expires_at row \<and> w' = w"
  using assms
  by (cases fsel; cases fdel)
     (auto simp add: getFromCache_def getFromCache_try_def prog_defs query_defs
           split: option.splits if_splits)

lemma getFromCache_resolves: "\<exists>r w'. getFromCache fsel fdel now key w = (Inr r, w')"
  by (cases fsel; cases fdel)
     (auto simp add: getFromCache_def getFromCache_try_def prog_defs query_defs
           split: option.splits if_splits)

lemma setCache_resolves: "\<exists>w'. setCache fups now key v ttl w = (Inr (), w')"
  by (cases fups)
     (auto simp add: setCache_def setCache_try_def prog_defs query_defs Let_def
           split: option.splits if_splits)


lemma getFromCache_never_stale:
  "\<forall>fs fd n k (u :: 'b world) x u'. getFromCache fs fd n k u = (Inr (Some x), u') \<longrightarrow>
     (\<exists>m row. supabase u = Some m \<and> m k = Some row \<and> row_value row = x \<and> n \<le> expires_at row)"
proof (intro allI impI)
  fix fs fd n k and u :: "'b world" and x u'
  assume "getFromCache fs fd n k u = (Inr (Some x), u')"
  from getFromCache_Some_unexpired [OF this]
  show "\<exists>m row. supabase u = Some m \<and> m k = Some row \<and> row_value row = x \<and> n \<le> expires_at row"
    by blast
qed

subsection \<open>Expiry\<close>

text \<open>
  Claim C1, as the code has it. After \<open>setCache\<close> at time \<open>wt\<close> with \<open>ttlSeconds = t\<close>
  on a configured store without storage faults, the row expires at
  \<open>wt + t * 1000\<close> ms. A \<open>getFromCache\<close> at \<open>now \<le> wt + t * 1000\<close> returns the stored
  value and leaves the store as it is; at \<open>now > wt + t * 1000\<close> it returns \<open>null\<close>
  and the row is deleted (it returns \<open>null\<close> also when the delete fails). For every
  store and every outcome of the queries, a value that \<open>getFromCache\<close> returns comes
  from a row whose \<open>expires_at\<close> is not before \<open>now\<close>.
\<close>

theorem getFromCache_expiry:
  assumes "supabase w = Some tbl" and "valid_time (wt + t * 1000)"
  shows "(let w1 = w\<lparr>supabase := Some (tbl(key \<mapsto> \<lparr>row_value = v, expires_at = wt + t * 1000\<rparr>))\<rparr> in
          setCache NoFault wt key v (Some t) w = (Inr (), w1) \<and>
          (now \<le> wt + t * 1000 \<longrightarrow> getFromCache NoFault fdel now key w1 = (Inr (Some v), w1)) \<and>
          (wt + t * 1000 < now \<longrightarrow>
             getFromCache NoFault NoFault now key w1 = (Inr None, w\<lparr>supabase := Some (tbl(key := None))\<rparr>) \<and>
             fst (getFromCache NoFault fdel now key w1) = Inr None)) \<and>
         (\<forall>fs fd n k u x u'. getFromCache fs fd n k u = (Inr (Some x), u') \<longrightarrow>
            (\<exists>m row. supabase u = Some m \<and> m k = Some row \<and> row_value row = x \<and> n \<le> expires_at row))"
proof -
  let ?row = "\<lparr>row_value = v, expires_at = wt + t * 1000\<rparr>"
  let ?w1 = "w\<lparr>supabase := Some (tbl(key \<mapsto> ?row))\<rparr>"
  have w1: "setCache NoFault wt key v (Some t) w = (Inr (), ?w1)"
    using setCache_configured [OF assms] by simp
  have s: "supabase ?w1 = Some (tbl(key \<mapsto> ?row))" by simp
  have l: "(tbl(key \<mapsto> ?row)) key = Some ?row" by simp
  have a: "now \<le> wt + t * 1000 \<Longrightarrow> getFromCache NoFault fdel now key ?w1 = (Inr (Some v), ?w1)"
    using getFromCache_fresh [OF s l, of now fdel] by simp
  have b: "wt + t * 1000 < now \<Longrightarrow>
      getFromCache NoFault NoFault now key ?w1 = (Inr None, w\<lparr>supabase := Some (tbl(key := None))\<rparr>)"
  proof -
    assume "wt + t * 1000 < now"
    then have "expires_at ?row < now" by simp
    from getFromCache_expired [OF s l this]
    have "getFromCache NoFault NoFault now key ?w1 =
            (Inr None, ?w1\<lparr>supabase := Some ((tbl(key \<mapsto> ?row))(key := None))\<rparr>)" .
    moreover have "(tbl(key \<mapsto> ?row))(key := None) = tbl(key := None)" by simp
    ultimately show ?thesis by simp
  qed
  have c: "wt + t * 1000 < now \<Longrightarrow> fst (getFromCache NoFault fdel now key ?w1) = Inr None"
    using getFromCache_expired_absent [OF s l, of now fdel] by simp
  have d: "\<forall>fs fd n k (u :: 'b world) x u'. getFromCache fs fd n k u = (Inr (Some x), u') \<longrightarrow>
            (\<exists>m row. supabase u = Some m \<and> m k = Some row \<and> row_value row = x \<and> n \<le> expires_at row)"
    by (rule getFromCache_never_stale)
  show ?thesis
    apply (rule conjI)
     apply (unfold Let_def)
     apply (intro conjI impI)
        apply (rule w1)
       apply (erule a)
      apply (erule b)
     apply (erule c)
    apply (rule d)
    done
qed


text \<open>
  The theorem at a row written at time 0 with a TTL of one second: read at 999 ms
  and at 1001 ms.
\<close>

theorem getFromCache_expiry_witness:
  "getFromCache NoFault NoFault 999 ''k''
     \<lparr>supabase = Some [''k'' \<mapsto> \<lparr>row_value = ''v'', expires_at = 1000\<rparr>], logged = [], invoked = []\<rparr> =
     (Inr (Some ''v''),
      \<lparr>supabase = Some [''k'' \<mapsto> \<lparr>row_value = ''v'', expires_at = 1000\<rparr>], logged = [], invoked = []\<rparr>) \<and>
   getFromCache NoFault NoFault 1001 ''k''
     \<lparr>supabase = Some [''k'' \<mapsto> \<lparr>row_value = ''v'', expires_at = 1000\<rparr>], logged = [], invoked = []\<rparr> =
     (Inr None, \<lparr>supabase = Some (Map.empty(''k'' := None)), logged = [], invoked = []\<rparr>)"
proof -
  have h1: "supabase empty_cache_world = Some Map.empty" by (simp add: empty_cache_world_def)
  have h2: "valid_time (0 + 1 * 1000)" by (simp add: valid_time_def)
  note t1 = conjunct1 [OF getFromCache_expiry [OF h1 h2, of "''k''" "''v''" 999 NoFault]]
  note t2 = conjunct1 [OF getFromCache_expiry [OF h1 h2, of "''k''" "''v''" 1001 NoFault]]
  have a: "getFromCache NoFault NoFault 999 ''k''
     \<lparr>supabase = Some [''k'' \<mapsto> \<lparr>row_value = ''v'', expires_at = 1000\<rparr>], logged = [], invoked = []\<rparr> =
     (Inr (Some ''v''),
      \<lparr>supabase = Some [''k'' \<mapsto> \<lparr>row_value = ''v'', expires_at = 1000\<rparr>], logged = [], invoked = []\<rparr>)"
    using t1 by (simp add: Let_def empty_cache_world_def)
  have b: "getFromCache NoFault NoFault 1001 ''k''
     \<lparr>supabase = Some [''k'' \<mapsto> \<lparr>row_value = ''v'', expires_at = 1000\<rparr>], logged = [], invoked = []\<rparr> =
     (Inr None, \<lparr>supabase = Some (Map.empty(''k'' := None)), logged = [], invoked = []\<rparr>)"
    using t2 by (simp add: Let_def empty_cache_world_def)
  show ?thesis using a b by (rule conjI)
qed

text \<open>
  Claim C1 as stated fails at the boundary \<open>now = write_time + ttl\<close>: the test in
  \<open>getFromCache\<close> is \<open>expires_at < now\<close>, so a row written at time 0 with a TTL of
  one second is still returned, and kept, by a read at exactly 1000 ms.
\<close>

theorem getFromCache_boundary_counterexample:
  "getFromCache NoFault NoFault 1000 ''k'' (snd (setCache NoFault 0 ''k'' ''v'' (Some 1) empty_cache_world)) =
     (Inr (Some ''v''),
      \<lparr>supabase = Some [''k'' \<mapsto> \<lparr>row_value = ''v'', expires_at = 1000\<rparr>], logged = [], invoked = []\<rparr>)"
  by (simp add: empty_cache_world_def setCache_def setCache_try_def getFromCache_def
        getFromCache_try_def prog_defs query_defs valid_time_def)

subsection \<open>Upsert\<close>

lemma getFromCache_configured_NoFault:
  assumes "supabase w = Some tbl"
  shows "fst (getFromCache NoFault fdel now key w) =
           Inr (case tbl key of None \<Rightarrow> None
                | Some row \<Rightarrow> if expires_at row < now then None else Some (row_value row))"
  using assms
  by (cases fdel)
     (simp_all add: getFromCache_def getFromCache_try_def prog_defs query_defs split: option.splits)

text \<open>
  Claim C4. On a configured store without storage faults, \<open>setCache\<close> stores the row
  \<open>(value, now + ttlSeconds * 1000)\<close> under the key, replacing the row the key had.
  After two writes of the same key the table holds the second row only, and
  \<open>getFromCache\<close> returns the second value while it is not expired and \<open>null\<close>
  afterwards, never the first value.
\<close>

theorem setCache_upsert:
  assumes "supabase w = Some tbl"
    and "valid_time (t1 + ttl1 * 1000)" and "valid_time (t2 + ttl2 * 1000)"
  shows "(let w1 = w\<lparr>supabase := Some (tbl(key \<mapsto> \<lparr>row_value = v1, expires_at = t1 + ttl1 * 1000\<rparr>))\<rparr>;
              w2 = w\<lparr>supabase := Some (tbl(key \<mapsto> \<lparr>row_value = v2, expires_at = t2 + ttl2 * 1000\<rparr>))\<rparr>
          in setCache NoFault t1 key v1 (Some ttl1) w = (Inr (), w1) \<and>
             setCache NoFault t2 key v2 (Some ttl2) w1 = (Inr (), w2) \<and>
             fst (getFromCache NoFault fdel now key w2) =
               Inr (if now \<le> t2 + ttl2 * 1000 then Some v2 else None))"
proof -
  let ?r1 = "\<lparr>row_value = v1, expires_at = t1 + ttl1 * 1000\<rparr>"
  let ?r2 = "\<lparr>row_value = v2, expires_at = t2 + ttl2 * 1000\<rparr>"
  let ?w1 = "w\<lparr>supabase := Some (tbl(key \<mapsto> ?r1))\<rparr>"
  let ?w2 = "w\<lparr>supabase := Some (tbl(key \<mapsto> ?r2))\<rparr>"
  have a: "setCache NoFault t1 key v1 (Some ttl1) w = (Inr (), ?w1)"
    by (rule setCache_configured [OF assms(1) assms(2)])
  have s1: "supabase ?w1 = Some (tbl(key \<mapsto> ?r1))" by simp
  have "setCache NoFault t2 key v2 (Some ttl2) ?w1 =
          (Inr (), ?w1\<lparr>supabase := Some ((tbl(key \<mapsto> ?r1))(key \<mapsto> ?r2))\<rparr>)"
    by (rule setCache_configured [OF s1 assms(3)])
  then have b: "setCache NoFault t2 key v2 (Some ttl2) ?w1 = (Inr (), ?w2)" by simp
  have s2: "supabase ?w2 = Some (tbl(key \<mapsto> ?r2))" by simp
  have c: "fst (getFromCache NoFault fdel now key ?w2) =
             Inr (if now \<le> t2 + ttl2 * 1000 then Some v2 else None)"
    using getFromCache_configured_NoFault [OF s2, of fdel now key] by auto
  show ?thesis unfolding Let_def using a b c by (intro conjI)
qed

text \<open>Two writes of the key \<open>k\<close>, then a read before the second row expires.\<close>

theorem setCache_upsert_witness:
  "fst (getFromCache NoFault NoFault 5000 ''k''
     (snd (setCache NoFault 2000 ''k'' ''second'' (Some 10)
        (snd (setCache NoFault 1000 ''k'' ''first'' (Some 10) empty_cache_world))))) = Inr (Some ''second'')"
proof -
  have h1: "supabase empty_cache_world = Some Map.empty" by (simp add: empty_cache_world_def)
  have h2: "valid_time (1000 + 10 * 1000)" by (simp add: valid_time_def)
  have h3: "valid_time (2000 + 10 * 1000)" by (simp add: valid_time_def)
  from setCache_upsert [OF h1 h2 h3, of "''k''" "''first''" "''second''" NoFault 5000]
  show ?thesis by (simp add: Let_def)
qed

subsection \<open>Storage failures\<close>

text \<open>
  Claim C5. \<open>getFromCache\<close> and \<open>setCache\<close> always resolve, whatever the storage
  layer does: neither rejects. A failed select (an error result or a rejection)
  makes \<open>getFromCache\<close> return \<open>null\<close> and leaves the table as it is; so does a
  failed delete of an expired row. A failed upsert on a configured store is logged as
  \<open>Cache storage error:\<close> and swallowed, the table unchanged.
\<close>

theorem cache_failures_soft:
  "(\<exists>r w'. getFromCache fsel fdel now key w = (Inr r, w')) \<and>
   (\<exists>w'. setCache fups now key v ttl w = (Inr (), w')) \<and>
   (fsel \<noteq> NoFault \<longrightarrow>
      fst (getFromCache fsel fdel now key w) = Inr None \<and>
      supabase (snd (getFromCache fsel fdel now key w)) = supabase w) \<and>
   (supabase w = Some tbl \<and> tbl key = Some row \<and> expires_at row < now \<and> fdel \<noteq> NoFault \<longrightarrow>
      fst (getFromCache NoFault fdel now key w) = Inr None \<and>
      supabase (snd (getFromCache NoFault fdel now key w)) = supabase w) \<and>
   (supabase w \<noteq> None \<and> fups \<noteq> NoFault \<longrightarrow>
      setCache fups now key v ttl w =
        (Inr (), w\<lparr>logged := logged w @ [Log Err ''Cache storage error:'']\<rparr>))"
proof (intro conjI impI)
  show "\<exists>r w'. getFromCache fsel fdel now key w = (Inr r, w')"
    by (rule getFromCache_resolves)
  show "\<exists>w'. setCache fups now key v ttl w = (Inr (), w')"
    by (rule setCache_resolves)
  show "fst (getFromCache fsel fdel now key w) = Inr None" if "fsel \<noteq> NoFault"
    using that
    by (cases fsel)
       (simp_all add: getFromCache_def getFromCache_try_def prog_defs query_defs split: option.splits)
  show "supabase (snd (getFromCache fsel fdel now key w)) = supabase w" if "fsel \<noteq> NoFault"
    using that
    by (cases fsel)
       (simp_all add: getFromCache_def getFromCache_try_def prog_defs query_defs split: option.splits)
  show "fst (getFromCache NoFault fdel now key w) = Inr None"
    if "supabase w = Some tbl \<and> tbl key = Some row \<and> expires_at row < now \<and> fdel \<noteq> NoFault"
    using that getFromCache_expired_absent [of w tbl key row now fdel] by blast
  show "supabase (snd (getFromCache NoFault fdel now key w)) = supabase w"
    if "supabase w = Some tbl \<and> tbl key = Some row \<and> expires_at row < now \<and> fdel \<noteq> NoFault"
    using that
    by (cases fdel)
       (simp_all add: getFromCache_def getFromCache_try_def prog_defs query_defs split: option.splits)
  show "setCache fups now key v ttl w =
        (Inr (), w\<lparr>logged := logged w @ [Log Err ''Cache storage error:'']\<rparr>)"
    if "supabase w \<noteq> None \<and> fups \<noteq> NoFault"
    using that
    by (cases fups)
       (auto simp add: setCache_def setCache_try_def prog_defs query_defs Let_def split: option.splits)
qed

text \<open>A rejected select and an upsert that resolves with an error.\<close>

theorem cache_failures_soft_witness:
  "fst (getFromCache (Throws (Error ''fetch failed'')) NoFault 0 ''k'' empty_cache_world) = Inr None \<and>
   setCache ErrorResult 0 ''k'' ''v'' (Some 60) empty_cache_world =
     (Inr (), \<lparr>supabase = Some Map.empty, logged = [Log Err ''Cache storage error:''], invoked = []\<rparr>)"
proof -
  note t = cache_failures_soft [where fsel = "Throws (Error ''fetch failed'')" and fdel = NoFault
      and now = 0 and key = "''k''" and w = empty_cache_world and fups = ErrorResult
      and v = "''v''" and ttl = "Some 60"]
  have a: "fst (getFromCache (Throws (Error ''fetch failed'')) NoFault 0 ''k'' empty_cache_world) = Inr None"
    using t by simp
  have b: "setCache ErrorResult 0 ''k'' ''v'' (Some 60) empty_cache_world =
     (Inr (), \<lparr>supabase = Some Map.empty, logged = [Log Err ''Cache storage error:''], invoked = []\<rparr>)"
    using t by (simp add: empty_cache_world_def)
  show ?thesis using a b by (rule conjI)
qed

subsection \<open>Cleanup\<close>

lemma cleanupExpiredCache_configured:
  assumes "supabase w = Some tbl"
  shows "cleanupExpiredCache NoFault now w =
           (Inr (), w\<lparr>supabase := Some (\<lambda>k. case tbl k of None \<Rightarrow> None
                                    | Some row \<Rightarrow> if expires_at row < now then None else Some row),
                     logged := logged w @ [Log Info ''Expired cache entries cleaned up'']\<rparr>)"
  using assms by (simp add: cleanupExpiredCache_def cleanupExpiredCache_try_def prog_defs query_defs)

lemma cleanupExpiredCache_unconfigured:
  assumes "supabase w = None"
  shows "cleanupExpiredCache f now w = (Inr (), w)"
  using assms by (simp add: cleanupExpiredCache_def cleanupExpiredCache_try_def prog_defs)

lemma cleanupExpiredCache_failed:
  assumes "supabase w = Some tbl" and "f \<noteq> NoFault"
  shows "supabase (snd (cleanupExpiredCache f now w)) = Some tbl"
  using assms
  by (cases f) (simp_all add: cleanupExpiredCache_def cleanupExpiredCache_try_def prog_defs query_defs)

lemma sweep_twice:
  "(\<lambda>k. case (case tbl k of None \<Rightarrow> None
                | Some row \<Rightarrow> if expires_at row < (now::int) then None else Some row) of
           None \<Rightarrow> None
         | Some row \<Rightarrow> if expires_at row < now then None else Some row) =
   (\<lambda>k. case tbl k of None \<Rightarrow> None
         | Some row \<Rightarrow> if expires_at row < now then None else Some row)"
  by (rule ext) (simp split: option.splits)

text \<open>
  Claim C9. On a configured store without storage faults, \<open>cleanupExpiredCache\<close>
  removes every row with \<open>expires_at < now\<close>, keeps every other row as it is and
  adds none. A second run at the same \<open>now\<close> (whatever the outcome of its delete)
  leaves the table of the first run.
\<close>

theorem cleanupExpiredCache_exact_idempotent:
  assumes "supabase w = Some tbl"
  shows "\<exists>tbl'. supabase (snd (cleanupExpiredCache NoFault now w)) = Some tbl' \<and>
           fst (cleanupExpiredCache NoFault now w) = Inr () \<and>
           (\<forall>k row. tbl k = Some row \<and> expires_at row < now \<longrightarrow> tbl' k = None) \<and>
           (\<forall>k row. tbl k = Some row \<and> now \<le> expires_at row \<longrightarrow> tbl' k = Some row) \<and>
           (\<forall>k. tbl k = None \<longrightarrow> tbl' k = None) \<and>
           supabase (snd (cleanupExpiredCache NoFault now (snd (cleanupExpiredCache NoFault now w)))) = Some tbl' \<and>
           supabase (snd (cleanupExpiredCache f now (snd (cleanupExpiredCache NoFault now w)))) = Some tbl'"
proof -
  let ?tbl' = "\<lambda>k. case tbl k of None \<Rightarrow> None
                    | Some row \<Rightarrow> if expires_at row < now then None else Some row"
  let ?w' = "w\<lparr>supabase := Some ?tbl',
               logged := logged w @ [Log Info ''Expired cache entries cleaned up'']\<rparr>"
  have once: "cleanupExpiredCache NoFault now w = (Inr (), ?w')"
    by (rule cleanupExpiredCache_configured [OF assms])
  have s': "supabase ?w' = Some ?tbl'" by simp
  have twice: "supabase (snd (cleanupExpiredCache NoFault now ?w')) = Some ?tbl'"
    using cleanupExpiredCache_configured [OF s', of now] sweep_twice [where tbl = tbl and now = now] by simp
  have any: "supabase (snd (cleanupExpiredCache f now ?w')) = Some ?tbl'"
  proof (cases "f = NoFault")
    case True
    then show ?thesis using twice by simp
  next
    case False
    then show ?thesis by (rule cleanupExpiredCache_failed [OF s'])
  qed
  show ?thesis
  proof (intro exI [of _ ?tbl'] conjI)
    show "supabase (snd (cleanupExpiredCache NoFault now w)) = Some ?tbl'"
      using once by simp
    show "fst (cleanupExpiredCache NoFault now w) = Inr ()"
      using once by simp
    show "\<forall>k row. tbl k = Some row \<and> expires_at row < now \<longrightarrow> ?tbl' k = None"
      by simp
    show "\<forall>k row. tbl k = Some row \<and> now \<le> expires_at row \<longrightarrow> ?tbl' k = Some row"
      by simp
    show "\<forall>k. tbl k = None \<longrightarrow> ?tbl' k = None"
      by simp
    show "supabase (snd (cleanupExpiredCache NoFault now (snd (cleanupExpiredCache NoFault now w)))) = Some ?tbl'"
      using once twice by simp
    show "supabase (snd (cleanupExpiredCache f now (snd (cleanupExpiredCache NoFault now w)))) = Some ?tbl'"
      using once any by simp
  qed
qed

text \<open>A table with one expired and one live row, swept at time 50, once and twice.\<close>

theorem cleanupExpiredCache_exact_idempotent_witness:
  "(case supabase (snd (cleanupExpiredCache NoFault 50 two_entry_world)) of
      None \<Rightarrow> False
    | Some tbl' \<Rightarrow>
        tbl' ''old'' = None \<and> tbl' ''new'' = Some \<lparr>row_value = ''b'', expires_at = 100\<rparr> \<and>
        supabase (snd (cleanupExpiredCache NoFault 50
          (snd (cleanupExpiredCache NoFault 50 two_entry_world)))) = Some tbl')"
proof -
  let ?tbl = "[''old'' \<mapsto> \<lparr>row_value = ''a'', expires_at = 10\<rparr>,
               ''new'' \<mapsto> \<lparr>row_value = ''b'', expires_at = (100::int)\<rparr>]"
  have h: "supabase two_entry_world = Some ?tbl" by (simp add: two_entry_world_def)
  from cleanupExpiredCache_exact_idempotent [OF h, of 50 NoFault]
  obtain tbl' where
    s: "supabase (snd (cleanupExpiredCache NoFault 50 two_entry_world)) = Some tbl'" and
    d: "\<forall>k row. ?tbl k = Some row \<and> expires_at row < 50 \<longrightarrow> tbl' k = None" and
    k: "\<forall>k row. ?tbl k = Some row \<and> 50 \<le> expires_at row \<longrightarrow> tbl' k = Some row" and
    t: "supabase (snd (cleanupExpiredCache NoFault 50
          (snd (cleanupExpiredCache NoFault 50 two_entry_world)))) = Some tbl'"
    by blast
  have "tbl' ''old'' = None" using d by simp
  moreover have "tbl' ''new'' = Some \<lparr>row_value = ''b'', expires_at = 100\<rparr>" using k by simp
  ultimately show ?thesis using s t by simp
qed

subsection \<open>Demo mode\<close>

lemma geocodeWithOSM_demo_mode:
  assumes "supabase gw = None" and "http r = Inr (Some (result # rest))"
  shows "fst (geocodeWithOSM r loc gw) =
           Inr \<lparr>locationName = loc, latitude = lat result, longitude = lon result,
                formattedAddress = display_name result,
                confidence = (if importance result > 0.5 then ''high'' else ''medium''),
                provider = ''openstreetmap'', geo_error = None, timestamp = t_stamp r\<rparr>"
  using assms
  by (simp add: geocodeWithOSM_def enter_def getFromCache_def getFromCache_try_def
        setCache_def setCache_try_def prog_defs Let_def)

text \<open>
  Claim C10. Without a configured client, \<open>getFromCache\<close> returns \<open>null\<close> for every
  key and \<open>setCache\<close> (and the cleanup) does nothing, so a read right after a write
  of the same key returns \<open>null\<close>. A caller does not need the cached value: in
  this mode the OpenStreetMap provider still returns the result of its request.
\<close>

theorem cache_unconfigured:
  assumes "supabase w = None"
  shows "getFromCache fsel fdel now key w = (Inr None, w) \<and>
         setCache fups t key v ttl w = (Inr (), w) \<and>
         getFromCache fsel fdel now key (snd (setCache fups t key v ttl w)) = (Inr None, w) \<and>
         cleanupExpiredCache fdel now w = (Inr (), w) \<and>
         (supabase gw = None \<and> http r = Inr (Some (result # rest)) \<longrightarrow>
            fst (geocodeWithOSM r loc gw) =
              Inr \<lparr>locationName = loc, latitude = lat result, longitude = lon result,
                   formattedAddress = display_name result,
                   confidence = (if importance result > 0.5 then ''high'' else ''medium''),
                   provider = ''openstreetmap'', geo_error = None, timestamp = t_stamp r\<rparr>)"
proof -
  have "getFromCache fsel fdel now key w = (Inr None, w)"
    using assms by (simp add: getFromCache_def getFromCache_try_def prog_defs)
  moreover have s: "setCache fups t key v ttl w = (Inr (), w)"
    using assms by (simp add: setCache_def setCache_try_def prog_defs)
  moreover have "getFromCache fsel fdel now key (snd (setCache fups t key v ttl w)) = (Inr None, w)"
    using assms s by (simp add: getFromCache_def getFromCache_try_def prog_defs)
  moreover have "cleanupExpiredCache fdel now w = (Inr (), w)"
    by (rule cleanupExpiredCache_unconfigured [OF assms])
  moreover have "supabase gw = None \<and> http r = Inr (Some (result # rest)) \<longrightarrow>
            fst (geocodeWithOSM r loc gw) =
              Inr \<lparr>locationName = loc, latitude = lat result, longitude = lon result,
                   formattedAddress = display_name result,
                   confidence = (if importance result > 0.5 then ''high'' else ''medium''),
                   provider = ''openstreetmap'', geo_error = None, timestamp = t_stamp r\<rparr>"
    using geocodeWithOSM_demo_mode [of gw r result rest loc] by blast
  ultimately show ?thesis by (intro conjI)
qed

text \<open>A write and a read of the same key in demo mode.\<close>

theorem cache_unconfigured_witness:
  "getFromCache NoFault NoFault 1 ''k'' (snd (setCache NoFault 0 ''k'' ''v'' (Some 3600) demo_world)) =
     (Inr None, demo_world)"
proof -
  have h: "supabase demo_world = None" by (simp add: demo_world_def)
  from cache_unconfigured [OF h, where fsel = NoFault and fdel = NoFault and now = 1
      and key = "''k''" and fups = NoFault and t = 0 and v = "''v''" and ttl = "Some 3600"]
  show ?thesis by simp
qed

section \<open>Properties of geocoding\<close>

subsection \<open>The record of provider calls\<close>

lemma keeps_return: "keeps_invoked (return a)"
  by (simp add: keeps_invoked_def return_def)

lemma keeps_throw: "keeps_invoked (throw e)"
  by (simp add: keeps_invoked_def throw_def)

lemma keeps_logger: "keeps_invoked (logger lv msg)"
  by (simp add: keeps_invoked_def logger_def)

lemma keeps_await:
  assumes "keeps_invoked p" and "\<And>a. keeps_invoked (k a)"
  shows "keeps_invoked (await p k)"
  unfolding keeps_invoked_def
proof
  fix w
  obtain r w' where pw: "p w = (r, w')" by (cases "p w")
  have i: "invoked w' = invoked w" using assms(1) pw by (auto simp: keeps_invoked_def dest: spec [of _ w])
  show "invoked (snd (await p k w)) = invoked w"
  proof (cases r)
    case (Inl e)
    then show ?thesis using pw i by (simp add: await_def)
  next
    case (Inr a)
    then show ?thesis using pw i assms(2) [of a] by (simp add: await_def keeps_invoked_def)
  qed
qed

lemma keeps_try_catch:
  assumes "keeps_invoked b" and "\<And>e. keeps_invoked (h e)"
  shows "keeps_invoked (try_catch b h)"
  unfolding keeps_invoked_def
proof
  fix w
  obtain r w' where bw: "b w = (r, w')" by (cases "b w")
  have i: "invoked w' = invoked w" using assms(1) bw by (auto simp: keeps_invoked_def dest: spec [of _ w])
  show "invoked (snd (try_catch b h w)) = invoked w"
  proof (cases r)
    case (Inl e)
    then show ?thesis using bw i assms(2) [of e] by (simp add: try_catch_def keeps_invoked_def)
  next
    case (Inr a)
    then show ?thesis using bw i by (simp add: try_catch_def)
  qed
qed

lemma keeps_getFromCache: "keeps_invoked (getFromCache fsel fdel now key)"
proof -
  have "keeps_invoked (getFromCache_try fsel fdel now key)"
    unfolding keeps_invoked_def
    by (cases fsel; cases fdel)
       (auto simp add: getFromCache_try_def return_def throw_def query_defs split: option.splits)
  then show ?thesis
    unfolding getFromCache_def
    by (intro keeps_try_catch keeps_await keeps_logger keeps_return)
qed

lemma keeps_setCache: "keeps_invoked (setCache fups now key v ttl)"
proof -
  have "keeps_invoked (setCache_try fups now key v ttl)"
    unfolding keeps_invoked_def
    by (cases fups)
       (auto simp add: setCache_try_def return_def throw_def logger_def query_defs Let_def
             split: option.splits)
  then show ?thesis
    unfolding setCache_def
    by (intro keeps_try_catch keeps_logger)
qed

lemmas keeps_intros =
  keeps_try_catch keeps_await keeps_logger keeps_return keeps_throw keeps_getFromCache keeps_setCache

lemma keeps_case_option:
  assumes "keeps_invoked n" and "\<And>x. keeps_invoked (s x)"
  shows "keeps_invoked (case_option n s opt)"
  using assms by (cases opt) simp_all

lemma keeps_case_sum:
  assumes "\<And>x. keeps_invoked (l x)" and "\<And>x. keeps_invoked (r x)"
  shows "keeps_invoked (case_sum l r s)"
  using assms by (cases s) simp_all

lemma keeps_case_list:
  assumes "keeps_invoked n" and "\<And>x xs. keeps_invoked (c x xs)"
  shows "keeps_invoked (case_list n c l)"
  using assms by (cases l) simp_all

lemma keeps_if:
  assumes "keeps_invoked p" and "keeps_invoked q"
  shows "keeps_invoked (if c then p else q)"
  using assms by simp

lemmas keeps_cases = keeps_case_option keeps_case_sum keeps_case_list keeps_if

lemma entered:
  assumes "keeps_invoked p"
  shows "invoked (snd (await (enter pid) (\<lambda>_. p) w)) = invoked w @ [pid]"
  using assms by (simp add: await_def enter_def keeps_invoked_def)

lemma invoked_geocodeWithGoogleMaps:
  "invoked (snd (geocodeWithGoogleMaps ev r locName w)) = invoked w @ [GoogleMaps]"
  unfolding geocodeWithGoogleMaps_def Let_def
  by (rule entered) (intro keeps_intros keeps_cases)

lemma invoked_geocodeWithMapbox:
  "invoked (snd (geocodeWithMapbox ev r locName w)) = invoked w @ [Mapbox]"
  unfolding geocodeWithMapbox_def Let_def
  by (rule entered) (intro keeps_intros keeps_cases)

lemma invoked_geocodeWithOSM:
  "invoked (snd (geocodeWithOSM r locName w)) = invoked w @ [OpenStreetMap]"
  unfolding geocodeWithOSM_def Let_def
  by (rule entered) (intro keeps_intros keeps_cases)

subsection \<open>Fallback order\<close>

lemma try_google_unfold:
  "try_google ev gr loc w =
     (if truthy (GOOGLE_MAPS_API_KEY ev)
      then (case geocodeWithGoogleMaps ev gr loc w of
              (Inl e, w') \<Rightarrow>
                (Inr None, w'\<lparr>logged := logged w' @ [Log Warn ''Google Maps geocoding failed, trying Mapbox...'']\<rparr>)
            | (Inr d, w') \<Rightarrow> (Inr (Some d), w'))
      else (Inr None, w))"
  by (simp add: try_google_def prog_defs split: prod.splits sum.splits)

lemma try_mapbox_unfold:
  "try_mapbox ev mr loc w =
     (if truthy (MAPBOX_ACCESS_TOKEN ev)
      then (case geocodeWithMapbox ev mr loc w of
              (Inl e, w') \<Rightarrow>
                (Inr None, w'\<lparr>logged := logged w' @ [Log Warn ''Mapbox geocoding failed, trying OpenStreetMap...'']\<rparr>)
            | (Inr d, w') \<Rightarrow> (Inr (Some d), w'))
      else (Inr None, w))"
  by (simp add: try_mapbox_def prog_defs split: prod.splits sum.splits)

lemma try_google_None_iff:
  "(try_google ev gr loc w = (Inr None, wg)) =
     (if truthy (GOOGLE_MAPS_API_KEY ev)
      then (\<exists>e w'. geocodeWithGoogleMaps ev gr loc w = (Inl e, w') \<and>
              wg = w'\<lparr>logged := logged w' @ [Log Warn ''Google Maps geocoding failed, trying Mapbox...'']\<rparr>)
      else wg = w)"
  by (auto simp add: try_google_unfold split: prod.splits sum.splits)

lemma try_mapbox_None_iff:
  "(try_mapbox ev mr loc w = (Inr None, wm)) =
     (if truthy (MAPBOX_ACCESS_TOKEN ev)
      then (\<exists>e w'. geocodeWithMapbox ev mr loc w = (Inl e, w') \<and>
              wm = w'\<lparr>logged := logged w' @ [Log Warn ''Mapbox geocoding failed, trying OpenStreetMap...'']\<rparr>)
      else wm = w)"
  by (auto simp add: try_mapbox_unfold split: prod.splits sum.splits)

lemma invoked_try_google:
  "invoked (snd (try_google ev gr loc w)) =
     invoked w @ (if truthy (GOOGLE_MAPS_API_KEY ev) then [GoogleMaps] else [])"
proof (cases "truthy (GOOGLE_MAPS_API_KEY ev)")
  case True
  obtain r w' where g: "geocodeWithGoogleMaps ev gr loc w = (r, w')"
    by (cases "geocodeWithGoogleMaps ev gr loc w")
  have "invoked w' = invoked w @ [GoogleMaps]"
    using invoked_geocodeWithGoogleMaps [of ev gr loc w] g by simp
  then show ?thesis using True g by (cases r) (simp_all add: try_google_unfold)
next
  case False
  then show ?thesis by (simp add: try_google_unfold)
qed

lemma invoked_try_mapbox:
  "invoked (snd (try_mapbox ev mr loc w)) =
     invoked w @ (if truthy (MAPBOX_ACCESS_TOKEN ev) then [Mapbox] else [])"
proof (cases "truthy (MAPBOX_ACCESS_TOKEN ev)")
  case True
  obtain r w' where g: "geocodeWithMapbox ev mr loc w = (r, w')"
    by (cases "geocodeWithMapbox ev mr loc w")
  have "invoked w' = invoked w @ [Mapbox]"
    using invoked_geocodeWithMapbox [of ev mr loc w] g by simp
  then show ?thesis using True g by (cases r) (simp_all add: try_mapbox_unfold)
next
  case False
  then show ?thesis by (simp add: try_mapbox_unfold)
qed

lemma geocodeLocation_google:
  assumes "truthy (GOOGLE_MAPS_API_KEY ev)" and "geocodeWithGoogleMaps ev gr loc w = (Inr d, wg)"
  shows "geocodeLocation ev gr mr osr j loc w = (Inr d, wg)"
  using assms by (simp add: geocodeLocation_def try_google_unfold prog_defs)

lemma geocodeLocation_mapbox:
  assumes "try_google ev gr loc w = (Inr None, wg)"
    and "truthy (MAPBOX_ACCESS_TOKEN ev)" and "geocodeWithMapbox ev mr loc wg = (Inr d, wm)"
  shows "geocodeLocation ev gr mr osr j loc w = (Inr d, wm)"
  using assms by (simp add: geocodeLocation_def try_mapbox_unfold prog_defs)

lemma geocodeLocation_osm:
  assumes "try_google ev gr loc w = (Inr None, wg)"
    and "try_mapbox ev mr loc wg = (Inr None, wm)"
    and "geocodeWithOSM osr loc wm = (Inr d, wo)"
  shows "geocodeLocation ev gr mr osr j loc w = (Inr d, wo)"
  using assms by (simp add: geocodeLocation_def prog_defs)



lemma try_google_resolves:
  "\<exists>g wg. try_google ev gr loc w = (Inr g, wg) \<and> (g \<noteq> None \<longrightarrow> truthy (GOOGLE_MAPS_API_KEY ev))"
  by (auto simp add: try_google_unfold split: prod.splits sum.splits)

lemma try_mapbox_resolves:
  "\<exists>m wm. try_mapbox ev mr loc w = (Inr m, wm) \<and> (m \<noteq> None \<longrightarrow> truthy (MAPBOX_ACCESS_TOKEN ev))"
  by (auto simp add: try_mapbox_unfold split: prod.splits sum.splits)

lemma geocodeLocation_calls:
  "\<exists>tr. invoked (snd (geocodeLocation ev gr mr osr j loc w)) = invoked w @ tr \<and>
        tr = filter (\<lambda>p. p \<in> set tr) [GoogleMaps, Mapbox, OpenStreetMap] \<and>
        (GoogleMaps \<in> set tr) = truthy (GOOGLE_MAPS_API_KEY ev) \<and>
        (Mapbox \<in> set tr \<longrightarrow> truthy (MAPBOX_ACCESS_TOKEN ev))"
proof -
  let ?Gs = "if truthy (GOOGLE_MAPS_API_KEY ev) then [GoogleMaps] else []"
  let ?Ms = "if truthy (MAPBOX_ACCESS_TOKEN ev) then [Mapbox] else []"
  obtain g wg where tg: "try_google ev gr loc w = (Inr g, wg)"
    and gk: "g \<noteq> None \<longrightarrow> truthy (GOOGLE_MAPS_API_KEY ev)"
    using try_google_resolves [of ev gr loc w] by blast
  have ig: "invoked wg = invoked w @ ?Gs"
    using invoked_try_google [of ev gr loc w] tg by simp
  show ?thesis
  proof (cases g)
    case (Some d)
    have "geocodeLocation ev gr mr osr j loc w = (Inr d, wg)"
      using tg Some by (simp add: geocodeLocation_def prog_defs)
    then have "invoked (snd (geocodeLocation ev gr mr osr j loc w)) = invoked w @ [GoogleMaps]"
      using ig gk Some by simp
    then show ?thesis using gk Some by (intro exI [of _ "[GoogleMaps]"]) simp
  next
    case None
    obtain m wm where tm: "try_mapbox ev mr loc wg = (Inr m, wm)"
      and mk: "m \<noteq> None \<longrightarrow> truthy (MAPBOX_ACCESS_TOKEN ev)"
      using try_mapbox_resolves [of ev mr loc wg] by blast
    have im: "invoked wm = invoked w @ ?Gs @ ?Ms"
      using invoked_try_mapbox [of ev mr loc wg] tm ig by simp
    show ?thesis
    proof (cases m)
      case (Some d)
      have "geocodeLocation ev gr mr osr j loc w = (Inr d, wm)"
        using tg tm None Some by (simp add: geocodeLocation_def prog_defs)
      then have "invoked (snd (geocodeLocation ev gr mr osr j loc w)) = invoked w @ ?Gs @ [Mapbox]"
        using im mk Some by simp
      then show ?thesis using mk Some by (intro exI [of _ "?Gs @ [Mapbox]"]) simp
    next
      case None2: None
      obtain r wo where o: "geocodeWithOSM osr loc wm = (r, wo)"
        by (cases "geocodeWithOSM osr loc wm")
      have io: "invoked wo = invoked w @ ?Gs @ ?Ms @ [OpenStreetMap]"
        using invoked_geocodeWithOSM [of osr loc wm] o im by simp
      have "invoked (snd (geocodeLocation ev gr mr osr j loc w)) = invoked wo"
        using tg tm None None2 o by (cases r) (simp_all add: geocodeLocation_def prog_defs)
      then have "invoked (snd (geocodeLocation ev gr mr osr j loc w)) =
                   invoked w @ ?Gs @ ?Ms @ [OpenStreetMap]"
        using io by simp
      then show ?thesis by (intro exI [of _ "?Gs @ ?Ms @ [OpenStreetMap]"]) simp
    qed
  qed
qed

text \<open>
  Claim C2. Whatever the input, the providers that \<open>geocodeLocation\<close> calls are
  called once each and in the order Google Maps, Mapbox, OpenStreetMap; Google Maps
  is called exactly when its key is set, and Mapbox only when its token is set.
  When a provider resolves, \<open>geocodeLocation\<close> resolves to that result in the state
  the provider left, and no later provider is called; when it rejects, a warning is
  logged and the next block runs. In the statement \<open>wg\<close> and \<open>wm\<close> are the states
  after the Google and the Mapbox block when control falls through them, which by
  the last two parts happens exactly when the provider is skipped or rejects.
\<close>

theorem geocodeLocation_fallback_order:
  "(\<exists>tr. invoked (snd (geocodeLocation ev gr mr osr j loc w)) = invoked w @ tr \<and>
         tr = filter (\<lambda>p. p \<in> set tr) [GoogleMaps, Mapbox, OpenStreetMap] \<and>
         (GoogleMaps \<in> set tr) = truthy (GOOGLE_MAPS_API_KEY ev) \<and>
         (Mapbox \<in> set tr \<longrightarrow> truthy (MAPBOX_ACCESS_TOKEN ev))) \<and>
   (truthy (GOOGLE_MAPS_API_KEY ev) \<and> geocodeWithGoogleMaps ev gr loc w = (Inr d, wg) \<longrightarrow>
      geocodeLocation ev gr mr osr j loc w = (Inr d, wg) \<and>
      invoked wg = invoked w @ [GoogleMaps]) \<and>
   (try_google ev gr loc w = (Inr None, wg) \<and> truthy (MAPBOX_ACCESS_TOKEN ev) \<and>
    geocodeWithMapbox ev mr loc wg = (Inr d, wm) \<longrightarrow>
      geocodeLocation ev gr mr osr j loc w = (Inr d, wm) \<and>
      invoked wm =
        invoked w @ (if truthy (GOOGLE_MAPS_API_KEY ev) then [GoogleMaps] else []) @ [Mapbox]) \<and>
   (try_google ev gr loc w = (Inr None, wg) \<and> try_mapbox ev mr loc wg = (Inr None, wm) \<and>
    geocodeWithOSM osr loc wm = (Inr d, wo) \<longrightarrow>
      geocodeLocation ev gr mr osr j loc w = (Inr d, wo) \<and>
      invoked wo =
        invoked w @ (if truthy (GOOGLE_MAPS_API_KEY ev) then [GoogleMaps] else []) @
          (if truthy (MAPBOX_ACCESS_TOKEN ev) then [Mapbox] else []) @ [OpenStreetMap]) \<and>
   ((try_google ev gr loc w = (Inr None, wg)) =
      (if truthy (GOOGLE_MAPS_API_KEY ev)
       then (\<exists>e w'. geocodeWithGoogleMaps ev gr loc w = (Inl e, w') \<and>
               wg = w'\<lparr>logged := logged w' @ [Log Warn ''Google Maps geocoding failed, trying Mapbox...'']\<rparr>)
       else wg = w)) \<and>
   ((try_mapbox ev mr loc wg = (Inr None, wm)) =
      (if truthy (MAPBOX_ACCESS_TOKEN ev)
       then (\<exists>e w'. geocodeWithMapbox ev mr loc wg = (Inl e, w') \<and>
               wm = w'\<lparr>logged := logged w' @ [Log Warn ''Mapbox geocoding failed, trying OpenStreetMap...'']\<rparr>)
       else wm = wg))"
proof (intro conjI impI)
  show "\<exists>tr. invoked (snd (geocodeLocation ev gr mr osr j loc w)) = invoked w @ tr \<and>
         tr = filter (\<lambda>p. p \<in> set tr) [GoogleMaps, Mapbox, OpenStreetMap] \<and>
         (GoogleMaps \<in> set tr) = truthy (GOOGLE_MAPS_API_KEY ev) \<and>
         (Mapbox \<in> set tr \<longrightarrow> truthy (MAPBOX_ACCESS_TOKEN ev))"
    by (rule geocodeLocation_calls)
next
  assume a: "truthy (GOOGLE_MAPS_API_KEY ev) \<and> geocodeWithGoogleMaps ev gr loc w = (Inr d, wg)"
  then show "geocodeLocation ev gr mr osr j loc w = (Inr d, wg)"
    by (simp add: geocodeLocation_google)
  show "invoked wg = invoked w @ [GoogleMaps]"
    using a invoked_geocodeWithGoogleMaps [of ev gr loc w] by simp
next
  assume a: "try_google ev gr loc w = (Inr None, wg) \<and> truthy (MAPBOX_ACCESS_TOKEN ev) \<and>
    geocodeWithMapbox ev mr loc wg = (Inr d, wm)"
  then show "geocodeLocation ev gr mr osr j loc w = (Inr d, wm)"
    by (simp add: geocodeLocation_mapbox)
  have "invoked wg = invoked w @ (if truthy (GOOGLE_MAPS_API_KEY ev) then [GoogleMaps] else [])"
    using a invoked_try_google [of ev gr loc w] by simp
  moreover have "invoked wm = invoked wg @ [Mapbox]"
    using a invoked_geocodeWithMapbox [of ev mr loc wg] by simp
  ultimately show "invoked wm =
        invoked w @ (if truthy (GOOGLE_MAPS_API_KEY ev) then [GoogleMaps] else []) @ [Mapbox]"
    by simp
next
  assume a: "try_google ev gr loc w = (Inr None, wg) \<and> try_mapbox ev mr loc wg = (Inr None, wm) \<and>
    geocodeWithOSM osr loc wm = (Inr d, wo)"
  then show "geocodeLocation ev gr mr osr j loc w = (Inr d, wo)"
    by (simp add: geocodeLocation_osm)
  have "invoked wg = invoked w @ (if truthy (GOOGLE_MAPS_API_KEY ev) then [GoogleMaps] else [])"
    using a invoked_try_google [of ev gr loc w] by simp
  moreover have "invoked wm = invoked wg @ (if truthy (MAPBOX_ACCESS_TOKEN ev) then [Mapbox] else [])"
    using a invoked_try_mapbox [of ev mr loc wg] by simp
  moreover have "invoked wo = invoked wm @ [OpenStreetMap]"
    using a invoked_geocodeWithOSM [of osr loc wm] by simp
  ultimately show "invoked wo =
        invoked w @ (if truthy (GOOGLE_MAPS_API_KEY ev) then [GoogleMaps] else []) @
          (if truthy (MAPBOX_ACCESS_TOKEN ev) then [Mapbox] else []) @ [OpenStreetMap]"
    by simp
next
  show "(try_google ev gr loc w = (Inr None, wg)) =
      (if truthy (GOOGLE_MAPS_API_KEY ev)
       then (\<exists>e w'. geocodeWithGoogleMaps ev gr loc w = (Inl e, w') \<and>
               wg = w'\<lparr>logged := logged w' @ [Log Warn ''Google Maps geocoding failed, trying Mapbox...'']\<rparr>)
       else wg = w)"
    by (rule try_google_None_iff)
  show "(try_mapbox ev mr loc wg = (Inr None, wm)) =
      (if truthy (MAPBOX_ACCESS_TOKEN ev)
       then (\<exists>e w'. geocodeWithMapbox ev mr loc wg = (Inl e, w') \<and>
               wm = w'\<lparr>logged := logged w' @ [Log Warn ''Mapbox geocoding failed, trying OpenStreetMap...'']\<rparr>)
       else wm = wg)"
    by (rule try_mapbox_None_iff)
qed

subsection \<open>A run of the chain\<close>

lemmas geo_defs = geocodeWithGoogleMaps_def geocodeWithMapbox_def geocodeWithOSM_def
  try_google_def try_mapbox_def geocodeLocation_def enter_def truthy_def

lemmas cache_defs = getFromCache_def getFromCache_try_def setCache_def setCache_try_def
  valid_time_def Let_def

lemmas fixture_defs = both_keys_def no_keys_def google_down_def mapbox_up_def mapbox_down_def
  osm_up_def osm_down_def demo_jitter_def geo_world_def geo_demo_world_def

text \<open>
  Both credentials set, an empty cache: the Google request is refused, Mapbox
  answers. The Mapbox result is returned and cached, and OpenStreetMap is never
  called.
\<close>

theorem geocodeLocation_fallback_order_witness:
  "geocodeLocation both_keys google_down mapbox_up osm_up demo_jitter ''Manhattan, NYC'' geo_world =
     (Inr \<lparr>locationName = ''Manhattan, NYC'', latitude = 40.78, longitude = - 73.97,
            formattedAddress = ''Manhattan, New York'', confidence = ''high'',
            provider = ''mapbox'', geo_error = None, timestamp = 1500\<rparr>,
      \<lparr>supabase = Some [mapbox_cacheKey ''Manhattan, NYC'' \<mapsto>
           \<lparr>row_value =
              \<lparr>locationName = ''Manhattan, NYC'', latitude = 40.78, longitude = - 73.97,
               formattedAddress = ''Manhattan, New York'', confidence = ''high'',
               provider = ''mapbox'', geo_error = None, timestamp = 1500\<rparr>,
            expires_at = 86401501\<rparr>],
       logged = [Log Err ''Google Maps geocoding error:'',
                 Log Warn ''Google Maps geocoding failed, trying Mapbox...'',
                 Log Info ''Geocoded with Mapbox: Manhattan, NYC''],
       invoked = [GoogleMaps, Mapbox]\<rparr>)"
proof -
  let ?d = "\<lparr>locationName = ''Manhattan, NYC'', latitude = 40.78, longitude = - 73.97,
            formattedAddress = ''Manhattan, New York'', confidence = ''high'',
            provider = ''mapbox'', geo_error = None, timestamp = 1500\<rparr>"
  let ?wg = "\<lparr>supabase = Some Map.empty,
       logged = [Log Err ''Google Maps geocoding error:'',
                 Log Warn ''Google Maps geocoding failed, trying Mapbox...''],
       invoked = [GoogleMaps]\<rparr> :: geocode_data world"
  let ?wm = "\<lparr>supabase = Some [mapbox_cacheKey ''Manhattan, NYC'' \<mapsto>
           \<lparr>row_value = ?d, expires_at = 86401501\<rparr>],
       logged = [Log Err ''Google Maps geocoding error:'',
                 Log Warn ''Google Maps geocoding failed, trying Mapbox...'',
                 Log Info ''Geocoded with Mapbox: Manhattan, NYC''],
       invoked = [GoogleMaps, Mapbox]\<rparr>"
  have g: "try_google both_keys google_down ''Manhattan, NYC'' geo_world = (Inr None, ?wg)"
    by (simp add: geo_defs cache_defs fixture_defs prog_defs query_defs)
  have t: "truthy (MAPBOX_ACCESS_TOKEN both_keys)"
    by (simp add: truthy_def both_keys_def)
  have m: "geocodeWithMapbox both_keys mapbox_up ''Manhattan, NYC'' ?wg = (Inr ?d, ?wm)"
    by (simp add: geo_defs cache_defs fixture_defs prog_defs query_defs)
  note inst = geocodeLocation_fallback_order [where ev = both_keys and gr = google_down
      and mr = mapbox_up and osr = osm_up and j = demo_jitter and loc = "''Manhattan, NYC''"
      and w = geo_world and d = ?d and wg = ?wg and wm = ?wm]
  from inst have "try_google both_keys google_down ''Manhattan, NYC'' geo_world = (Inr None, ?wg) \<and>
      truthy (MAPBOX_ACCESS_TOKEN both_keys) \<and>
      geocodeWithMapbox both_keys mapbox_up ''Manhattan, NYC'' ?wg = (Inr ?d, ?wm) \<longrightarrow>
      geocodeLocation both_keys google_down mapbox_up osm_up demo_jitter ''Manhattan, NYC'' geo_world =
        (Inr ?d, ?wm)"
    by blast
  with g t m show ?thesis by blast
qed

subsection \<open>Exhaustion\<close>




text \<open>
  No credential and no cache: only OpenStreetMap is called; its answer is returned
  when it is reachable, the degraded record otherwise.
\<close>

lemma geocodeLocation_no_credentials_online:
  "geocodeLocation no_keys google_down mapbox_down osm_up demo_jitter ''Manhattan, NYC'' geo_demo_world =
     (Inr \<lparr>locationName = ''Manhattan, NYC'', latitude = 40.79, longitude = - 73.96,
            formattedAddress = ''Manhattan, New York County'', confidence = ''medium'',
            provider = ''openstreetmap'', geo_error = None, timestamp = 1800\<rparr>,
      \<lparr>supabase = None, logged = [Log Info ''Geocoded with OSM: Manhattan, NYC''],
       invoked = [OpenStreetMap]\<rparr>)"
  by (simp add: geo_defs cache_defs fixture_defs prog_defs)

lemma geocodeLocation_no_credentials_offline:
  "geocodeLocation no_keys google_down mapbox_down osm_down demo_jitter ''Manhattan, NYC'' geo_demo_world =
     (Inr \<lparr>locationName = ''Manhattan, NYC'', latitude = 40.6878, longitude = - 73.981,
            formattedAddress = ''Manhattan, NYC (Mock Location)'', confidence = ''low'',
            provider = ''mock'', geo_error = Some ''All geocoding providers failed'',
            timestamp = 2000\<rparr>,
      \<lparr>supabase = None,
       logged = [Log Err ''OSM geocoding error:'', Log Err ''All geocoding providers failed:''],
       invoked = [OpenStreetMap]\<rparr>)"
  by (simp add: geo_defs cache_defs fixture_defs prog_defs mock_location_def)

section \<open>Properties of the cache keys\<close>

subsection \<open>The base64 encoding is injective\<close>

lemma b64_alphabet_length: "length b64_alphabet = 64"
  by (simp add: b64_alphabet_def)

lemma b64_alphabet_distinct: "distinct b64_alphabet"
  by (simp add: b64_alphabet_def)

lemma b64_alphabet_no_pad: "CHR ''='' \<notin> set b64_alphabet"
  by (simp add: b64_alphabet_def)

lemma b64_digit_inj:
  assumes "m < 64" and "n < 64" and "b64_digit m = b64_digit n"
  shows "m = n"
  using assms b64_alphabet_distinct
  by (simp add: b64_digit_def nth_eq_iff_index_eq b64_alphabet_length)

lemma b64_digit_no_pad:
  assumes "n < 64"
  shows "b64_digit n \<noteq> CHR ''=''"
proof
  assume "b64_digit n = CHR ''=''"
  then have "CHR ''='' \<in> set b64_alphabet"
    using assms nth_mem [of n b64_alphabet] by (simp add: b64_digit_def b64_alphabet_length)
  then show False using b64_alphabet_no_pad by simp
qed

lemma base64_bytes_Nil_iff: "(base64_bytes xs = []) = (xs = [])"
  by (cases xs rule: base64_bytes.cases) simp_all

lemma single_group:
  fixes a a' :: nat
  assumes "a < 256" and "a' < 256"
    and "b64_digit (a div 4) = b64_digit (a' div 4)"
    and "b64_digit (a mod 4 * 16) = b64_digit (a' mod 4 * 16)"
  shows "a = a'"
proof -
  have "a div 4 = a' div 4"
    using assms(1,2) by (intro b64_digit_inj [OF _ _ assms(3)]) auto
  moreover have "a mod 4 * 16 = a' mod 4 * 16"
    using assms(1,2) by (intro b64_digit_inj [OF _ _ assms(4)]) auto
  ultimately show ?thesis by (metis div_mult_mod_eq mult_cancel2 zero_neq_numeral)
qed

lemma split_digits:
  fixes x y x' y' k :: nat
  assumes "y < k" and "y' < k" and "x * k + y = x' * k + y'"
  shows "x = x' \<and> y = y'"
proof -
  have "(x * k + y) div k = x" "(x * k + y) mod k = y" using assms(1) by simp_all
  moreover have "(x' * k + y') div k = x'" "(x' * k + y') mod k = y'" using assms(2) by simp_all
  ultimately show ?thesis using assms(3) by simp
qed

lemma div_mod_eq:
  fixes a a' k :: nat
  assumes "a div k = a' div k" and "a mod k = a' mod k"
  shows "a = a'"
  using assms by (metis div_mult_mod_eq)

lemma byte_bounds:
  fixes b :: nat
  assumes "b < 256"
  shows "b div 4 < 64" and "b div 16 < 16" and "b div 64 < 4"
  using assms by simp_all

lemma pair_group:
  fixes a b a' b' :: nat
  assumes "a < 256" "b < 256" "a' < 256" "b' < 256"
    and d1: "b64_digit (a div 4) = b64_digit (a' div 4)"
    and d2: "b64_digit (a mod 4 * 16 + b div 16) = b64_digit (a' mod 4 * 16 + b' div 16)"
    and d3: "b64_digit (b mod 16 * 4) = b64_digit (b' mod 16 * 4)"
  shows "a = a' \<and> b = b'"
proof -
  note bb = byte_bounds [OF assms(2)] and bb' = byte_bounds [OF assms(4)]
  have e1: "a div 4 = a' div 4"
    using byte_bounds(1) [OF assms(1)] byte_bounds(1) [OF assms(3)] by (rule b64_digit_inj [OF _ _ d1])
  have m: "a mod 4 < 4" "a' mod 4 < 4" "b mod 16 < 16" "b' mod 16 < 16" by simp_all
  have "a mod 4 * 16 + b div 16 < 64" using m(1) bb(2) by linarith
  moreover have "a' mod 4 * 16 + b' div 16 < 64" using m(2) bb'(2) by linarith
  ultimately have "a mod 4 * 16 + b div 16 = a' mod 4 * 16 + b' div 16"
    by (rule b64_digit_inj [OF _ _ d2])
  then have e2: "a mod 4 = a' mod 4 \<and> b div 16 = b' div 16"
    by (rule split_digits [OF bb(2) bb'(2)])
  have "b mod 16 * 4 < 64" using m(3) by linarith
  moreover have "b' mod 16 * 4 < 64" using m(4) by linarith
  ultimately have "b mod 16 * 4 = b' mod 16 * 4"
    by (rule b64_digit_inj [OF _ _ d3])
  then have e3: "b mod 16 = b' mod 16" by simp
  have "a = a'" using e1 e2 by (intro div_mod_eq [of a 4 a']) simp_all
  moreover have "b = b'" using e2 e3 by (intro div_mod_eq [of b 16 b']) simp_all
  ultimately show ?thesis by simp
qed

lemma triple_group:
  fixes a b c a' b' c' :: nat
  assumes "a < 256" "b < 256" "c < 256" "a' < 256" "b' < 256" "c' < 256"
    and d1: "b64_digit (a div 4) = b64_digit (a' div 4)"
    and d2: "b64_digit (a mod 4 * 16 + b div 16) = b64_digit (a' mod 4 * 16 + b' div 16)"
    and d3: "b64_digit (b mod 16 * 4 + c div 64) = b64_digit (b' mod 16 * 4 + c' div 64)"
    and d4: "b64_digit (c mod 64) = b64_digit (c' mod 64)"
  shows "a = a' \<and> b = b' \<and> c = c'"
proof -
  note bb = byte_bounds [OF assms(2)] and bb' = byte_bounds [OF assms(5)]
  note cb = byte_bounds [OF assms(3)] and cb' = byte_bounds [OF assms(6)]
  have e1: "a div 4 = a' div 4"
    using byte_bounds(1) [OF assms(1)] byte_bounds(1) [OF assms(4)] by (rule b64_digit_inj [OF _ _ d1])
  have m: "a mod 4 < 4" "a' mod 4 < 4" "b mod 16 < 16" "b' mod 16 < 16" "c mod 64 < 64" "c' mod 64 < 64"
    by simp_all
  have "a mod 4 * 16 + b div 16 < 64" using m(1) bb(2) by linarith
  moreover have "a' mod 4 * 16 + b' div 16 < 64" using m(2) bb'(2) by linarith
  ultimately have "a mod 4 * 16 + b div 16 = a' mod 4 * 16 + b' div 16"
    by (rule b64_digit_inj [OF _ _ d2])
  then have e2: "a mod 4 = a' mod 4 \<and> b div 16 = b' div 16"
    by (rule split_digits [OF bb(2) bb'(2)])
  have "b mod 16 * 4 + c div 64 < 64" using m(3) cb(3) by linarith
  moreover have "b' mod 16 * 4 + c' div 64 < 64" using m(4) cb'(3) by linarith
  ultimately have "b mod 16 * 4 + c div 64 = b' mod 16 * 4 + c' div 64"
    by (rule b64_digit_inj [OF _ _ d3])
  then have e3: "b mod 16 = b' mod 16 \<and> c div 64 = c' div 64"
    by (rule split_digits [OF cb(3) cb'(3)])
  have e4: "c mod 64 = c' mod 64"
    using m(5,6) by (rule b64_digit_inj [OF _ _ d4])
  have "a = a'" using e1 e2 by (intro div_mod_eq [of a 4 a']) simp_all
  moreover have "b = b'" using e2 e3 by (intro div_mod_eq [of b 16 b']) simp_all
  moreover have "c = c'" using e3 e4 by (intro div_mod_eq [of c 64 c']) simp_all
  ultimately show ?thesis by simp
qed

lemma b64_digit_pad_iff:
  assumes "n < 64"
  shows "(b64_digit n = CHR ''='') = False" and "(CHR ''='' = b64_digit n) = False"
  using b64_digit_no_pad [OF assms] by auto

lemma base64_bytes_inj:
  assumes "\<forall>x\<in>set xs. x < 256" and "\<forall>y\<in>set ys. y < 256"
    and "base64_bytes xs = base64_bytes ys"
  shows "xs = ys"
  using assms
proof (induction xs arbitrary: ys rule: base64_bytes.induct)
  case 1
  then show ?case by (cases ys rule: base64_bytes.cases) simp_all
next
  case (2 a)
  show ?case
  proof (cases ys rule: base64_bytes.cases)
    case 1
    then show ?thesis using "2.prems" by simp
  next
    case (2 a')
    then show ?thesis using "2.prems" single_group [of a a'] by simp
  next
    case (3 a' b')
    then show ?thesis using "2.prems" by (simp add: b64_digit_pad_iff)
  next
    case (4 a' b' c' rest')
    then show ?thesis using "2.prems" by (simp add: b64_digit_pad_iff)
  qed
next
  case (3 a b)
  show ?case
  proof (cases ys rule: base64_bytes.cases)
    case 1
    then show ?thesis using "3.prems" by simp
  next
    case (2 a')
    then show ?thesis using "3.prems" by (simp add: b64_digit_pad_iff)
  next
    case (3 a' b')
    then show ?thesis using "3.prems" pair_group [of a b a' b'] by simp
  next
    case (4 a' b' c' rest')
    then show ?thesis using "3.prems" by (simp add: b64_digit_pad_iff)
  qed
next
  case (4 a b c rest)
  show ?case
  proof (cases ys rule: base64_bytes.cases)
    case 1
    then show ?thesis using "4.prems" by simp
  next
    case (2 a')
    then show ?thesis using "4.prems" by (simp add: b64_digit_pad_iff)
  next
    case (3 a' b')
    then show ?thesis using "4.prems" by (simp add: b64_digit_pad_iff)
  next
    case (4 a' b' c' rest')
    have g: "a = a' \<and> b = b' \<and> c = c'"
      using "4.prems" 4 triple_group [of a b c a' b' c'] by simp
    have "base64_bytes rest = base64_bytes rest'"
      using "4.prems" 4 by simp
    moreover have "\<forall>x\<in>set rest. x < 256" "\<forall>y\<in>set rest'. y < 256"
      using "4.prems" 4 by simp_all
    ultimately have "rest = rest'" using "4.IH" by blast
    then show ?thesis using g 4 by simp
  qed
qed

lemma base64_inj: "(base64 s = base64 t) = (s = t)"
proof
  assume "base64 s = base64 t"
  then have "map of_char s = (map of_char t :: nat list)"
    unfolding base64_def by (intro base64_bytes_inj) auto
  then show "s = t"
    by (simp add: inj_map_eq_map inj_on_def)
qed simp

subsection \<open>The encoding is the one of RFC 4648\<close>

text \<open>
  The arithmetic of \<open>base64_bytes\<close> on three bytes gives the four groups of six
  bits of their twenty-four bits, so that \<open>base64\<close> and \<open>base64_rfc\<close> agree on
  every text.
\<close>

lemma bit_value: "(if odd x then 1 else 0) = (x mod 2 :: nat)"
  by (simp add: odd_iff_mod_2_eq_one)

lemma sextet_value_six:
  "sextet_value [b5, b4, b3, b2, b1, b0] =
     32 * (if b5 then 1 else 0) + 16 * (if b4 then 1 else 0) + 8 * (if b3 then 1 else 0) +
     4 * (if b2 then 1 else 0) + 2 * (if b1 then 1 else 0) + (if b0 then 1 else 0)"
  by (simp add: sextet_value_def)

lemma bits_of_byte_eq:
  "bits_of_byte b = [odd (b div 128), odd (b div 64), odd (b div 32), odd (b div 16),
                     odd (b div 8), odd (b div 4), odd (b div 2), odd b]"
  by (simp add: bits_of_byte_def)

lemma halve:
  fixes x k k2 :: nat
  assumes "k2 = 2 * k"
  shows "x div k = x div k mod 2 + 2 * (x div k2)"
proof -
  have "x div k div 2 * 2 + x div k mod 2 = x div k" by (rule div_mult_mod_eq)
  moreover have "x div k div 2 = x div k2" unfolding assms by (simp only: div_mult2_eq mult.commute)
  ultimately show ?thesis by (simp only: mult.commute add.commute)
qed

lemma halve_mod:
  fixes x k k2 m m2 :: nat
  assumes "k2 = 2 * k" and "m2 = 2 * m"
  shows "x div k mod m2 = x div k mod 2 + 2 * (x div k2 mod m)"
proof -
  have "x div k mod (2 * m) = 2 * (x div k div 2 mod m) + x div k mod 2" by (rule mod_mult2_eq)
  moreover have "x div k div 2 = x div k2" unfolding assms by (simp only: div_mult2_eq mult.commute)
  ultimately show ?thesis unfolding assms by (simp only: add.commute)
qed

lemma chain6:
  fixes d0 :: nat
  assumes "d6 = 0" "d0 = m0 + 2 * d1" "d1 = m1 + 2 * d2" "d2 = m2 + 2 * d3" "d3 = m3 + 2 * d4"
    "d4 = m4 + 2 * d5" "d5 = m5 + 2 * d6"
  shows "32 * m5 + 16 * m4 + 8 * m3 + 4 * m2 + 2 * m1 + m0 = d0"
  using assms by linarith

lemma chain4:
  fixes d0 :: nat
  assumes "d4 = 0" "d0 = m0 + 2 * d1" "d1 = m1 + 2 * d2" "d2 = m2 + 2 * d3" "d3 = m3 + 2 * d4"
  shows "8 * m3 + 4 * m2 + 2 * m1 + m0 = d0"
  using assms by linarith

lemma chain2:
  fixes d0 :: nat
  assumes "d2 = 0" "d0 = m0 + 2 * d1" "d1 = m1 + 2 * d2"
  shows "2 * m1 + m0 = d0"
  using assms by linarith


lemma hi6:
  fixes a :: nat
  assumes "a < 256"
  shows "32 * (a div 128 mod 2) + 16 * (a div 64 mod 2) + 8 * (a div 32 mod 2) +
         4 * (a div 16 mod 2) + 2 * (a div 8 mod 2) + a div 4 mod 2 = a div 4"
proof (rule chain6)
  show "a div 256 = 0" using assms by simp
  show "a div 4 = a div 4 mod 2 + 2 * (a div 8)" by (rule halve) simp
  show "a div 8 = a div 8 mod 2 + 2 * (a div 16)" by (rule halve) simp
  show "a div 16 = a div 16 mod 2 + 2 * (a div 32)" by (rule halve) simp
  show "a div 32 = a div 32 mod 2 + 2 * (a div 64)" by (rule halve) simp
  show "a div 64 = a div 64 mod 2 + 2 * (a div 128)" by (rule halve) simp
  show "a div 128 = a div 128 mod 2 + 2 * (a div 256)" by (rule halve) simp
qed

lemma hi4:
  fixes b :: nat
  assumes "b < 256"
  shows "8 * (b div 128 mod 2) + 4 * (b div 64 mod 2) + 2 * (b div 32 mod 2) + b div 16 mod 2 = b div 16"
proof (rule chain4)
  show "b div 256 = 0" using assms by simp
  show "b div 16 = b div 16 mod 2 + 2 * (b div 32)" by (rule halve) simp
  show "b div 32 = b div 32 mod 2 + 2 * (b div 64)" by (rule halve) simp
  show "b div 64 = b div 64 mod 2 + 2 * (b div 128)" by (rule halve) simp
  show "b div 128 = b div 128 mod 2 + 2 * (b div 256)" by (rule halve) simp
qed

lemma hi2:
  fixes c :: nat
  assumes "c < 256"
  shows "2 * (c div 128 mod 2) + c div 64 mod 2 = c div 64"
proof (rule chain2)
  show "c div 256 = 0" using assms by simp
  show "c div 64 = c div 64 mod 2 + 2 * (c div 128)" by (rule halve) simp
  show "c div 128 = c div 128 mod 2 + 2 * (c div 256)" by (rule halve) simp
qed

lemma mod_one_step:
  fixes x :: nat
  assumes "k2 = 2 * k"
  shows "x div k mod 2 = x div k mod 2 + 2 * (x div k2 mod 1)"
  by simp

lemma lo2:
  fixes a :: nat
  shows "2 * (a div 2 mod 2) + a div 1 mod 2 = a div 1 mod 4"
proof (rule chain2)
  show "a div 4 mod 1 = 0" by simp
  show "a div 1 mod 4 = a div 1 mod 2 + 2 * (a div 2 mod 2)" by (rule halve_mod) simp_all
  show "a div 2 mod 2 = a div 2 mod 2 + 2 * (a div 4 mod 1)" by simp
qed

lemma lo4:
  fixes b :: nat
  shows "8 * (b div 8 mod 2) + 4 * (b div 4 mod 2) + 2 * (b div 2 mod 2) + b div 1 mod 2 = b div 1 mod 16"
proof (rule chain4)
  show "b div 16 mod 1 = 0" by simp
  show "b div 1 mod 16 = b div 1 mod 2 + 2 * (b div 2 mod 8)" by (rule halve_mod) simp_all
  show "b div 2 mod 8 = b div 2 mod 2 + 2 * (b div 4 mod 4)" by (rule halve_mod) simp_all
  show "b div 4 mod 4 = b div 4 mod 2 + 2 * (b div 8 mod 2)" by (rule halve_mod) simp_all
  show "b div 8 mod 2 = b div 8 mod 2 + 2 * (b div 16 mod 1)" by simp
qed

lemma lo6:
  fixes c :: nat
  shows "32 * (c div 32 mod 2) + 16 * (c div 16 mod 2) + 8 * (c div 8 mod 2) + 4 * (c div 4 mod 2) +
   2 * (c div 2 mod 2) + c div 1 mod 2 = c div 1 mod 64"
proof (rule chain6)
  show "c div 64 mod 1 = 0" by simp
  show "c div 1 mod 64 = c div 1 mod 2 + 2 * (c div 2 mod 32)" by (rule halve_mod) simp_all
  show "c div 2 mod 32 = c div 2 mod 2 + 2 * (c div 4 mod 16)" by (rule halve_mod) simp_all
  show "c div 4 mod 16 = c div 4 mod 2 + 2 * (c div 8 mod 8)" by (rule halve_mod) simp_all
  show "c div 8 mod 8 = c div 8 mod 2 + 2 * (c div 16 mod 4)" by (rule halve_mod) simp_all
  show "c div 16 mod 4 = c div 16 mod 2 + 2 * (c div 32 mod 2)" by (rule halve_mod) simp_all
  show "c div 32 mod 2 = c div 32 mod 2 + 2 * (c div 64 mod 1)" by simp
qed

lemma join_2_4:
  fixes p q :: nat
  assumes "2 * x1 + x0 = p" and "8 * y3 + 4 * y2 + 2 * y1 + y0 = q"
  shows "32 * x1 + 16 * x0 + 8 * y3 + 4 * y2 + 2 * y1 + y0 = p * 16 + q"
  using assms by linarith

lemma join_4_2:
  fixes p q :: nat
  assumes "8 * x3 + 4 * x2 + 2 * x1 + x0 = p" and "2 * y1 + y0 = q"
  shows "32 * x3 + 16 * x2 + 8 * x1 + 4 * x0 + 2 * y1 + y0 = p * 4 + q"
  using assms by linarith

lemma join_2_0:
  fixes p :: nat
  assumes "2 * x1 + x0 = p"
  shows "32 * x1 + 16 * x0 + 8 * 0 + 4 * 0 + 2 * 0 + 0 = p * 16"
  using assms by linarith

lemma join_4_0:
  fixes p :: nat
  assumes "8 * x3 + 4 * x2 + 2 * x1 + x0 = p"
  shows "32 * x3 + 16 * x2 + 8 * x1 + 4 * x0 + 2 * 0 + 0 = p * 4"
  using assms by linarith

lemma sextet_first:
  assumes "a < 256"
  shows "sextet_value [odd (a div 128), odd (a div 64), odd (a div 32), odd (a div 16),
                       odd (a div 8), odd (a div 4)] = a div 4"
  unfolding sextet_value_six bit_value by (rule hi6 [OF assms])

lemma sextet_second:
  assumes "b < 256"
  shows "sextet_value [odd (a div 2), odd a, odd (b div 128), odd (b div 64), odd (b div 32),
                       odd (b div 16)] = a mod 4 * 16 + b div 16"
  unfolding sextet_value_six bit_value
  by (rule join_2_4 [OF lo2 [unfolded div_by_1] hi4 [OF assms]])

lemma sextet_third:
  assumes "c < 256"
  shows "sextet_value [odd (b div 8), odd (b div 4), odd (b div 2), odd b, odd (c div 128),
                       odd (c div 64)] = b mod 16 * 4 + c div 64"
  unfolding sextet_value_six bit_value
  by (rule join_4_2 [OF lo4 [unfolded div_by_1] hi2 [OF assms]])

lemma sextet_fourth:
  "sextet_value [odd (c div 32), odd (c div 16), odd (c div 8), odd (c div 4), odd (c div 2),
                 odd c] = c mod 64"
  unfolding sextet_value_six bit_value by (rule lo6 [unfolded div_by_1])

lemma sextet_second_padded:
  "sextet_value [odd (a div 2), odd a, False, False, False, False] = a mod 4 * 16"
  unfolding sextet_value_six bit_value if_False
  by (rule join_2_0 [OF lo2 [unfolded div_by_1]])

lemma sextet_third_padded:
  "sextet_value [odd (b div 8), odd (b div 4), odd (b div 2), odd b, False, False] = b mod 16 * 4"
  unfolding sextet_value_six bit_value if_False
  by (rule join_4_0 [OF lo4 [unfolded div_by_1]])

lemma replicate_numeral:
  "replicate 2 x = [x, x]" "replicate 4 x = [x, x, x, x]" "replicate 5 x = [x, x, x, x, x]"
  by (simp_all add: numeral_eq_Suc)

lemma sextets_one:
  "sextets (bits_of_byte a) =
     [[odd (a div 128), odd (a div 64), odd (a div 32), odd (a div 16), odd (a div 8), odd (a div 4)],
      [odd (a div 2), odd a, False, False, False, False]]"
  by (simp add: bits_of_byte_eq replicate_numeral)

lemma sextets_two:
  "sextets (bits_of_byte a @ bits_of_byte b) =
     [[odd (a div 128), odd (a div 64), odd (a div 32), odd (a div 16), odd (a div 8), odd (a div 4)],
      [odd (a div 2), odd a, odd (b div 128), odd (b div 64), odd (b div 32), odd (b div 16)],
      [odd (b div 8), odd (b div 4), odd (b div 2), odd b, False, False]]"
  by (simp add: bits_of_byte_eq replicate_numeral)

lemma sextets_three:
  "sextets (bits_of_byte a @ bits_of_byte b @ bits_of_byte c @ bits) =
     [[odd (a div 128), odd (a div 64), odd (a div 32), odd (a div 16), odd (a div 8), odd (a div 4)],
      [odd (a div 2), odd a, odd (b div 128), odd (b div 64), odd (b div 32), odd (b div 16)],
      [odd (b div 8), odd (b div 4), odd (b div 2), odd b, odd (c div 128), odd (c div 64)],
      [odd (c div 32), odd (c div 16), odd (c div 8), odd (c div 4), odd (c div 2), odd c]] @
     sextets bits"
  by (simp add: bits_of_byte_eq replicate_numeral)

lemma base64_bytes_rfc:
  assumes "\<forall>x \<in> set xs. x < 256"
  shows "base64_bytes xs =
     (let chars = map (\<lambda>g. b64_digit (sextet_value g)) (sextets (concat (map bits_of_byte xs)))
      in chars @ replicate ((4 - length chars mod 4) mod 4) (CHR ''=''))"
  using assms
proof (induction xs rule: base64_bytes.induct)
  case 1
  show ?case by simp
next
  case (2 a)
  then have "a < 256" by simp
  then show ?case
    by (simp add: sextets_one sextet_first sextet_second_padded replicate_numeral)
next
  case (3 a b)
  then have "a < 256" and "b < 256" by simp_all
  then show ?case
    by (simp add: sextets_two sextet_first sextet_second sextet_third_padded)
next
  case (4 a b c rest)
  then have bounds: "a < 256" "b < 256" "c < 256" and rest: "\<forall>x \<in> set rest. x < 256"
    by simp_all
  have step: "concat (map bits_of_byte (a # b # c # rest)) =
      bits_of_byte a @ bits_of_byte b @ bits_of_byte c @ concat (map bits_of_byte rest)"
    by simp
  show ?case
    unfolding step sextets_three base64_bytes.simps "4.IH" [OF rest] Let_def
    using bounds by (simp add: sextet_first sextet_second sextet_third sextet_fourth)
qed

lemma base64_rfc_eq: "base64 text = base64_rfc text"
proof -
  have "\<forall>x \<in> set (map of_char text :: nat list). x < 256" by simp
  from base64_bytes_rfc [OF this] show ?thesis
    by (simp add: base64_def base64_rfc_def Let_def comp_def)
qed

subsection \<open>Number::toString is injective\<close>

text \<open>
  \<open>read_body\<close> reads the digits and the exponent back from the output of
  \<open>number_body\<close>; hence two numbers printed alike are the same number, and, no
  number containing an underscore, a reverse key determines its two coordinates.
\<close>

lemma of_char_digit_char: "d < 10 \<Longrightarrow> (of_char (digit_char d) :: nat) = 48 + d"
  by (simp add: digit_char_def)

lemma digit_value_digit_char: "d < 10 \<Longrightarrow> digit_value (digit_char d) = d"
  by (simp add: digit_value_def of_char_digit_char)

lemma digit_char_neq:
  assumes "d < 10"
  shows "digit_char d \<noteq> CHR ''e''" "digit_char d \<noteq> CHR ''.''" "digit_char d \<noteq> CHR ''-''"
    "digit_char d \<noteq> CHR ''+''" "digit_char d \<noteq> CHR ''_''" "digit_char d \<noteq> CHR ''N''"
    "digit_char d \<noteq> CHR ''I''"
proof -
  have "of_char (digit_char d) \<noteq> (of_char c :: nat)" if "(of_char c :: nat) < 48 \<or> 57 < (of_char c :: nat)" for c
    using that assms by (auto simp add: of_char_digit_char)
  then have "digit_char d \<noteq> c" if "(of_char c :: nat) < 48 \<or> 57 < (of_char c :: nat)" for c
    using that by auto
  then show "digit_char d \<noteq> CHR ''e''" "digit_char d \<noteq> CHR ''.''" "digit_char d \<noteq> CHR ''-''"
    "digit_char d \<noteq> CHR ''+''" "digit_char d \<noteq> CHR ''_''" "digit_char d \<noteq> CHR ''N''"
    "digit_char d \<noteq> CHR ''I''"
    by simp_all
qed

lemma digit_char_zero: "digit_char 0 = CHR ''0''"
proof -
  have "(of_char (digit_char 0) :: nat) = of_char (CHR ''0'')"
    by (simp add: of_char_digit_char)
  then show ?thesis by (simp only: of_char_eq_iff)
qed

lemma digit_char_inj: "a < 10 \<Longrightarrow> b < 10 \<Longrightarrow> digit_char a = digit_char b \<Longrightarrow> a = b"
  using digit_value_digit_char by metis

lemma decimal_digits: "\<exists>ds. ds \<noteq> [] \<and> list_all (\<lambda>d. d < 10) ds \<and> decimal m = map digit_char ds"
proof (induction m rule: decimal.induct)
  case (1 m)
  show ?case
  proof (cases "m < 10")
    case True
    then show ?thesis by (intro exI [of _ "[m]"]) (simp add: decimal.simps [of m])
  next
    case False
    then obtain ds where "ds \<noteq> []" "list_all (\<lambda>d. d < 10) ds" "decimal (m div 10) = map digit_char ds"
      using 1 by blast
    then show ?thesis using False
      by (intro exI [of _ "ds @ [m mod 10]"]) (simp add: decimal.simps [of m])
  qed
qed

lemma read_decimal_snoc: "read_decimal (s @ [c]) = 10 * read_decimal s + digit_value c"
  by (simp add: read_decimal_def)

lemma read_decimal_decimal: "read_decimal (decimal m) = m"
proof (induction m rule: decimal.induct)
  case (1 m)
  show ?case
  proof (cases "m < 10")
    case True
    then show ?thesis by (simp add: decimal.simps [of m] read_decimal_def digit_value_digit_char)
  next
    case False
    then have "read_decimal (decimal (m div 10)) = m div 10" using 1 by simp
    then show ?thesis using False
      by (simp add: decimal.simps [of m] read_decimal_snoc digit_value_digit_char)
  qed
qed

lemma split_at:
  assumes "\<forall>ch\<in>set M. ch \<noteq> x"
  shows "takeWhile (\<lambda>c. c \<noteq> x) (M @ x # X) = M"
    and "drop 1 (dropWhile (\<lambda>c. c \<noteq> x) (M @ x # X)) = X"
    and "takeWhile (\<lambda>c. c \<noteq> x) M = M"
    and "drop 1 (dropWhile (\<lambda>c. c \<noteq> x) M) = []"
  using assms by (induction M) simp_all

lemma read_body_core:
  assumes "\<forall>ch\<in>set M. ch \<noteq> CHR ''e''"
    and "takeWhile (\<lambda>c. c \<noteq> CHR ''.'') M = W"
    and "drop 1 (dropWhile (\<lambda>c. c \<noteq> CHR ''.'') M) = Fr"
  shows "read_body M =
           (rev (dropWhile (\<lambda>d. d = 0) (rev (dropWhile (\<lambda>d. d = 0) (map digit_value (W @ Fr))))),
            int (length W) - int (length (takeWhile (\<lambda>d. d = 0) (map digit_value (W @ Fr)))))"
    and "read_body (M @ CHR ''e'' # c # cs) =
           (rev (dropWhile (\<lambda>d. d = 0) (rev (dropWhile (\<lambda>d. d = 0) (map digit_value (W @ Fr))))),
            int (length W) + (if c = CHR ''-'' then - int (read_decimal cs) else int (read_decimal cs)) -
              int (length (takeWhile (\<lambda>d. d = 0) (map digit_value (W @ Fr)))))"
proof -
  note s = split_at [OF assms(1)]
  show "read_body M =
           (rev (dropWhile (\<lambda>d. d = 0) (rev (dropWhile (\<lambda>d. d = 0) (map digit_value (W @ Fr))))),
            int (length W) - int (length (takeWhile (\<lambda>d. d = 0) (map digit_value (W @ Fr)))))"
    unfolding read_body_def Let_def s(3) s(4) assms(2) assms(3) by simp
  show "read_body (M @ CHR ''e'' # c # cs) =
           (rev (dropWhile (\<lambda>d. d = 0) (rev (dropWhile (\<lambda>d. d = 0) (map digit_value (W @ Fr))))),
            int (length W) + (if c = CHR ''-'' then - int (read_decimal cs) else int (read_decimal cs)) -
              int (length (takeWhile (\<lambda>d. d = 0) (map digit_value (W @ Fr)))))"
    unfolding read_body_def Let_def s(1) s(2) assms(2) assms(3) by simp
qed

lemma zeros_prefix:
  fixes xs :: "nat list"
  shows "takeWhile (\<lambda>d. d = 0) (replicate a 0 @ xs) = replicate a 0 @ takeWhile (\<lambda>d. d = 0) xs"
    and "dropWhile (\<lambda>d. d = 0) (replicate a 0 @ xs) = dropWhile (\<lambda>d. d = 0) xs"
  by (induction a) simp_all

lemma strip_zeros:
  assumes "shortest_digits ds"
  shows "takeWhile (\<lambda>d. d = 0) (replicate a 0 @ ds @ replicate z 0) = replicate a 0"
    and "rev (dropWhile (\<lambda>d. d = 0) (rev (dropWhile (\<lambda>d. d = 0) (replicate a 0 @ ds @ replicate z 0)))) = ds"
proof -
  obtain d ds' where ds: "ds = d # ds'" and d: "d \<noteq> 0"
    using assms by (cases ds) (simp_all add: shortest_digits_def)
  have "ds \<noteq> []" using ds by simp
  then obtain bs b where bs: "ds = bs @ [b]" by (cases ds rule: rev_cases) simp_all
  have b: "b \<noteq> 0" using assms bs by (simp add: shortest_digits_def)
  show "takeWhile (\<lambda>d. d = 0) (replicate a 0 @ ds @ replicate z 0) = replicate a 0"
    unfolding zeros_prefix(1) using ds d by simp
  have 1: "dropWhile (\<lambda>d. d = 0) (replicate a 0 @ ds @ replicate z 0) = ds @ replicate z 0"
    unfolding zeros_prefix(2) using ds d by simp
  have 2: "rev (ds @ replicate z 0) = replicate z 0 @ rev ds" by simp
  have 3: "dropWhile (\<lambda>d. d = 0) (rev ds) = rev ds"
    using bs b by simp
  show "rev (dropWhile (\<lambda>d. d = 0) (rev (dropWhile (\<lambda>d. d = 0) (replicate a 0 @ ds @ replicate z 0)))) = ds"
  proof -
    have "rev (dropWhile (\<lambda>d. d = 0) (rev (dropWhile (\<lambda>d. d = 0) (replicate a 0 @ ds @ replicate z 0)))) =
          rev (dropWhile (\<lambda>d. d = 0) (rev (ds @ replicate z 0)))"
      by (simp only: 1)
    also have "\<dots> = rev (dropWhile (\<lambda>d. d = 0) (replicate z 0 @ rev ds))"
      by (simp only: 2)
    also have "\<dots> = rev (dropWhile (\<lambda>d. d = 0) (rev ds))"
      by (simp only: zeros_prefix(2))
    also have "\<dots> = rev (rev ds)"
      by (simp only: 3)
    finally show ?thesis by simp
  qed
qed

lemma digit_values:
  assumes "list_all (\<lambda>d. d < 10) ds"
  shows "map digit_value (map digit_char ds) = ds"
  using assms by (induction ds) (simp_all add: digit_value_digit_char)

lemma digit_value_zero: "digit_value (CHR ''0'') = 0"
  by (simp add: digit_value_def)

lemma digits_plain:
  assumes "list_all (\<lambda>d. d < 10) ds" and "ch \<in> set (map digit_char ds)"
  shows "ch \<noteq> CHR ''e''" "ch \<noteq> CHR ''.''" "ch \<noteq> CHR ''-''" "ch \<noteq> CHR ''+''" "ch \<noteq> CHR ''_''"
  using assms digit_char_neq by (auto simp add: list_all_iff)

lemma shortest_digitsD:
  assumes "shortest_digits ds"
  shows "ds \<noteq> []" and "list_all (\<lambda>d. d < 10) ds"
  using assms by (simp_all add: shortest_digits_def)

lemma digit_values_comp:
  assumes "list_all (\<lambda>d. d < 10) ds"
  shows "map (digit_value \<circ> digit_char) ds = ds"
  using digit_values [OF assms] by simp

lemma part_plain:
  assumes "list_all (\<lambda>d. d < 10) ds"
  shows "\<forall>ch\<in>set (take i (map digit_char ds)). ch \<noteq> CHR ''e'' \<and> ch \<noteq> CHR ''.''"
    and "\<forall>ch\<in>set (drop i (map digit_char ds)). ch \<noteq> CHR ''e'' \<and> ch \<noteq> CHR ''.''"
proof -
  have a: "ch \<noteq> CHR ''e'' \<and> ch \<noteq> CHR ''.''" if "ch \<in> set (map digit_char ds)" for ch
    using digits_plain(1,2) [OF assms that] by simp
  show "\<forall>ch\<in>set (take i (map digit_char ds)). ch \<noteq> CHR ''e'' \<and> ch \<noteq> CHR ''.''"
    using a in_set_takeD by fast
  show "\<forall>ch\<in>set (drop i (map digit_char ds)). ch \<noteq> CHR ''e'' \<and> ch \<noteq> CHR ''.''"
    using a in_set_dropD by fast
qed

lemma zeros_values: "map digit_value (replicate m (CHR ''0'')) = replicate m 0"
  by (simp add: digit_value_zero)

lemma read_integer:
  assumes sd: "shortest_digits ds"
  shows "read_body (map digit_char ds @ replicate m (CHR ''0'')) = (ds, int (length ds) + int m)"
proof -
  let ?M = "map digit_char ds @ replicate m (CHR ''0'')"
  note ok = shortest_digitsD(2) [OF sd]
  have e: "\<forall>ch\<in>set ?M. ch \<noteq> CHR ''e''" using digits_plain(1) [OF ok] by auto
  have p: "\<forall>ch\<in>set ?M. ch \<noteq> CHR ''.''" using digits_plain(2) [OF ok] by auto
  have v: "map digit_value (?M @ []) = replicate 0 0 @ ds @ replicate m 0"
    by (simp add: digit_values_comp [OF ok] digit_value_zero)
  show ?thesis
    unfolding read_body_core(1) [OF e split_at(3) [OF p] split_at(4) [OF p]] v strip_zeros [OF sd]
    by simp
qed

lemma read_fraction:
  assumes sd: "shortest_digits ds" and "i \<le> length ds"
  shows "read_body (take i (map digit_char ds) @ CHR ''.'' # drop i (map digit_char ds)) = (ds, int i)"
proof -
  let ?D = "map digit_char ds"
  let ?M = "take i ?D @ CHR ''.'' # drop i ?D"
  note ok = shortest_digitsD(2) [OF sd]
  have e: "\<forall>ch\<in>set ?M. ch \<noteq> CHR ''e''"
    using part_plain [OF ok, of i] by auto
  have p: "\<forall>ch\<in>set (take i ?D). ch \<noteq> CHR ''.''"
    using part_plain(1) [OF ok, of i] by auto
  have "map digit_value (take i ?D @ drop i ?D) = map digit_value ?D"
    by (simp only: append_take_drop_id)
  then have v: "map digit_value (take i ?D @ drop i ?D) = replicate 0 0 @ ds @ replicate 0 0"
    by (simp add: digit_values_comp [OF ok])
  show ?thesis
    unfolding read_body_core(1) [OF e split_at(1) [OF p] split_at(2) [OF p]] v strip_zeros [OF sd]
    using assms(2) by simp
qed

lemma read_small:
  assumes sd: "shortest_digits ds"
  shows "read_body (CHR ''0'' # CHR ''.'' # replicate m (CHR ''0'') @ map digit_char ds) = (ds, - int m)"
proof -
  let ?D = "map digit_char ds"
  let ?F = "replicate m (CHR ''0'') @ ?D"
  let ?M = "[CHR ''0''] @ CHR ''.'' # ?F"
  note ok = shortest_digitsD(2) [OF sd]
  have e: "\<forall>ch\<in>set ?M. ch \<noteq> CHR ''e''" using digits_plain(1) [OF ok] by auto
  have p: "\<forall>ch\<in>set [CHR ''0'']. ch \<noteq> CHR ''.''" by simp
  have v: "map digit_value ([CHR ''0''] @ ?F) = replicate (Suc m) 0 @ ds @ replicate 0 0"
    by (simp add: digit_values_comp [OF ok] digit_value_zero)
  have "read_body ?M = (ds, - int m)"
    unfolding read_body_core(1) [OF e split_at(1) [OF p] split_at(2) [OF p]] v strip_zeros [OF sd]
    by simp
  then show ?thesis by simp
qed

lemma read_exponent:
  assumes "\<forall>ch\<in>set M. ch \<noteq> CHR ''e''"
    and "takeWhile (\<lambda>c. c \<noteq> CHR ''.'') M = W"
    and "drop 1 (dropWhile (\<lambda>c. c \<noteq> CHR ''.'') M) = Fr"
    and "map digit_value (W @ Fr) = ds" and "shortest_digits ds"
  shows "read_body (M @ ''e'' @ (if e < 0 then ''-'' else ''+'') @ decimal (nat \<bar>e\<bar>)) =
           (ds, int (length W) + e)"
proof -
  have v: "map digit_value (W @ Fr) = replicate 0 0 @ ds @ replicate 0 0" using assms(4) by simp
  show ?thesis
  proof (cases "e < 0")
    case True
    have "read_body (M @ CHR ''e'' # CHR ''-'' # decimal (nat \<bar>e\<bar>)) = (ds, int (length W) + e)"
      unfolding read_body_core(2) [OF assms(1,2,3)] v strip_zeros [OF assms(5)] read_decimal_decimal
      using True by simp
    then show ?thesis using True by simp
  next
    case False
    have "read_body (M @ CHR ''e'' # CHR ''+'' # decimal (nat \<bar>e\<bar>)) = (ds, int (length W) + e)"
      unfolding read_body_core(2) [OF assms(1,2,3)] v strip_zeros [OF assms(5)] read_decimal_decimal
      using False by simp
    then show ?thesis using False by simp
  qed
qed

lemma read_body_number_body:
  assumes sd: "shortest_digits ds"
  shows "read_body (number_body ds n) = (ds, n)"
proof -
  let ?D = "map digit_char ds"
  let ?k = "int (length ds)"
  note ok = shortest_digitsD(2) [OF sd] and ne = shortest_digitsD(1) [OF sd]
  consider (integer) "?k \<le> n" "n \<le> 21"
    | (fraction) "n < ?k" "0 < n" "n \<le> 21"
    | (small) "- 6 < n" "n \<le> 0"
    | (exponent) "n \<le> - 6 \<or> 21 < n"
    by linarith
  then show ?thesis
  proof cases
    case integer
    then have "number_body ds n = ?D @ replicate (nat (n - ?k)) (CHR ''0'')"
      by (simp add: number_body_def Let_def)
    then show ?thesis using read_integer [OF sd, of "nat (n - ?k)"] integer by simp
  next
    case fraction
    then have "number_body ds n = take (nat n) ?D @ CHR ''.'' # drop (nat n) ?D"
      by (simp add: number_body_def Let_def)
    then show ?thesis using read_fraction [OF sd, of "nat n"] fraction by simp
  next
    case small
    have "0 < length ds" using ne by simp
    then have "\<not> ?k \<le> n" using small by linarith
    then have "number_body ds n = CHR ''0'' # CHR ''.'' # replicate (nat (- n)) (CHR ''0'') @ ?D"
      using small by (simp add: number_body_def Let_def)
    then show ?thesis using read_small [OF sd, of "nat (- n)"] small by simp
  next
    case exponent
    have "0 < length ds" using ne by simp
    then have k: "0 < ?k" by linarith
    show ?thesis
    proof (cases "?k = 1")
      case True
      have e: "\<forall>ch\<in>set ?D. ch \<noteq> CHR ''e''" using digits_plain(1) [OF ok] by auto
      have p: "\<forall>ch\<in>set ?D. ch \<noteq> CHR ''.''" using digits_plain(2) [OF ok] by auto
      have v: "map digit_value (?D @ []) = ds" by (simp add: digit_values_comp [OF ok])
      have "number_body ds n = ?D @ ''e'' @ (if n - 1 < 0 then ''-'' else ''+'') @ decimal (nat \<bar>n - 1\<bar>)"
        using exponent True by (auto simp add: number_body_def Let_def)
      then show ?thesis
        using read_exponent [OF e split_at(3) [OF p] split_at(4) [OF p] v sd, of "n - 1"] True
        by simp
    next
      case False
      let ?M = "take 1 ?D @ CHR ''.'' # drop 1 ?D"
      have e: "\<forall>ch\<in>set ?M. ch \<noteq> CHR ''e''"
        using part_plain [OF ok, of 1] by auto
      have p: "\<forall>ch\<in>set (take 1 ?D). ch \<noteq> CHR ''.''"
        using part_plain(1) [OF ok, of 1] by auto
      have "map digit_value (take 1 ?D @ drop 1 ?D) = map digit_value ?D"
        by (simp only: append_take_drop_id)
      then have v: "map digit_value (take 1 ?D @ drop 1 ?D) = ds"
        by (simp add: digit_values_comp [OF ok])
      have l: "int (length (take 1 ?D)) = 1" using k by (cases ds) simp_all
      have "number_body ds n = ?M @ ''e'' @ (if n - 1 < 0 then ''-'' else ''+'') @ decimal (nat \<bar>n - 1\<bar>)"
        using exponent False k by (auto simp add: number_body_def Let_def)
      then show ?thesis
        using read_exponent [OF e split_at(1) [OF p] split_at(2) [OF p] v sd, of "n - 1"] l
        by simp
    qed
  qed
qed

lemma number_body_shapes:
  assumes "ds \<noteq> []"
  shows "int (length ds) \<le> n \<Longrightarrow> n \<le> 21 \<Longrightarrow>
           number_body ds n = map digit_char ds @ replicate (nat (n - int (length ds))) (CHR ''0'')"
    and "n < int (length ds) \<Longrightarrow> 0 < n \<Longrightarrow> n \<le> 21 \<Longrightarrow>
           number_body ds n = take (nat n) (map digit_char ds) @ CHR ''.'' # drop (nat n) (map digit_char ds)"
    and "- 6 < n \<Longrightarrow> n \<le> 0 \<Longrightarrow>
           number_body ds n = CHR ''0'' # CHR ''.'' # replicate (nat (- n)) (CHR ''0'') @ map digit_char ds"
    and "n \<le> - 6 \<or> 21 < n \<Longrightarrow> length ds = 1 \<Longrightarrow>
           number_body ds n =
             map digit_char ds @ CHR ''e'' # (if n - 1 < 0 then CHR ''-'' else CHR ''+'') # decimal (nat \<bar>n - 1\<bar>)"
    and "n \<le> - 6 \<or> 21 < n \<Longrightarrow> length ds \<noteq> 1 \<Longrightarrow>
           number_body ds n =
             take 1 (map digit_char ds) @ CHR ''.'' # drop 1 (map digit_char ds) @
               CHR ''e'' # (if n - 1 < 0 then CHR ''-'' else CHR ''+'') # decimal (nat \<bar>n - 1\<bar>)"
proof -
  have k: "0 < int (length ds)" using assms by simp
  show "int (length ds) \<le> n \<Longrightarrow> n \<le> 21 \<Longrightarrow>
           number_body ds n = map digit_char ds @ replicate (nat (n - int (length ds))) (CHR ''0'')"
    by (simp add: number_body_def Let_def)
  show "n < int (length ds) \<Longrightarrow> 0 < n \<Longrightarrow> n \<le> 21 \<Longrightarrow>
           number_body ds n = take (nat n) (map digit_char ds) @ CHR ''.'' # drop (nat n) (map digit_char ds)"
    by (simp add: number_body_def Let_def)
  show "- 6 < n \<Longrightarrow> n \<le> 0 \<Longrightarrow>
           number_body ds n = CHR ''0'' # CHR ''.'' # replicate (nat (- n)) (CHR ''0'') @ map digit_char ds"
  proof -
    assume a: "- 6 < n" "n \<le> 0"
    then have "\<not> int (length ds) \<le> n" using k by linarith
    then show ?thesis using a by (simp add: number_body_def Let_def)
  qed
  show "n \<le> - 6 \<or> 21 < n \<Longrightarrow> length ds = 1 \<Longrightarrow>
           number_body ds n =
             map digit_char ds @ CHR ''e'' # (if n - 1 < 0 then CHR ''-'' else CHR ''+'') # decimal (nat \<bar>n - 1\<bar>)"
    by (auto simp add: number_body_def Let_def)
  show "n \<le> - 6 \<or> 21 < n \<Longrightarrow> length ds \<noteq> 1 \<Longrightarrow>
           number_body ds n =
             take 1 (map digit_char ds) @ CHR ''.'' # drop 1 (map digit_char ds) @
               CHR ''e'' # (if n - 1 < 0 then CHR ''-'' else CHR ''+'') # decimal (nat \<bar>n - 1\<bar>)"
    using k by (auto simp add: number_body_def Let_def)
qed

lemma number_body_cases:
  assumes "ds \<noteq> []"
  obtains m where "number_body ds n = map digit_char ds @ replicate m (CHR ''0'')"
  | i where "0 < i" "number_body ds n = take i (map digit_char ds) @ CHR ''.'' # drop i (map digit_char ds)"
  | m where "number_body ds n = CHR ''0'' # CHR ''.'' # replicate m (CHR ''0'') @ map digit_char ds"
  | c m where "number_body ds n = map digit_char ds @ CHR ''e'' # c # decimal m" "c = CHR ''-'' \<or> c = CHR ''+''"
  | c m where "number_body ds n = take 1 (map digit_char ds) @ CHR ''.'' # drop 1 (map digit_char ds) @ CHR ''e'' # c # decimal m"
      "c = CHR ''-'' \<or> c = CHR ''+''"
proof -
  consider (integer) "int (length ds) \<le> n" "n \<le> 21"
    | (fraction) "n < int (length ds)" "0 < n" "n \<le> 21"
    | (small) "- 6 < n" "n \<le> 0"
    | (exponent) "n \<le> - 6 \<or> 21 < n"
    by linarith
  then show ?thesis
  proof cases
    case integer
    then show ?thesis using number_body_shapes(1) [OF assms] that(1) by blast
  next
    case fraction
    then have "0 < nat n" by simp
    then show ?thesis using number_body_shapes(2) [OF assms fraction] that(2) by blast
  next
    case small
    then show ?thesis using number_body_shapes(3) [OF assms] that(3) by blast
  next
    case exponent
    show ?thesis
    proof (cases "length ds = 1")
      case True
      show ?thesis
        by (rule that(4) [OF number_body_shapes(4) [OF assms exponent True]]) simp
    next
      case False
      show ?thesis
        by (rule that(5) [OF number_body_shapes(5) [OF assms exponent False]]) simp
    qed
  qed
qed

lemma number_body_first:
  assumes sd: "shortest_digits ds"
  shows "\<exists>d rest. d < 10 \<and> number_body ds n = digit_char d # rest"
proof -
  obtain d ds' where ds: "ds = d # ds'" using shortest_digitsD(1) [OF sd] by (cases ds) simp_all
  have d: "d < 10" using shortest_digitsD(2) [OF sd] ds by simp
  have D: "map digit_char ds = digit_char d # map digit_char ds'" using ds by simp
  have t: "take i (map digit_char ds) = digit_char d # take (i - 1) (map digit_char ds')" if "0 < i" for i
    using that D by (cases i) simp_all
  show ?thesis
  proof (cases rule: number_body_cases [OF shortest_digitsD(1) [OF sd], of n])
    case (1 m)
    then show ?thesis using D d by auto
  next
    case (2 i)
    then show ?thesis using t [OF 2(1)] d by auto
  next
    case (3 m)
    then have "number_body ds n = digit_char 0 # CHR ''.'' # replicate m (CHR ''0'') @ map digit_char ds"
      by (simp only: digit_char_zero)
    then show ?thesis by (intro exI [of _ 0]) simp
  next
    case (4 c m)
    then show ?thesis using D d by auto
  next
    case (5 c m)
    then show ?thesis using t [of 1] d by auto
  qed
qed

lemma decimal_plain:
  assumes "ch \<in> set (decimal m)"
  shows "ch \<noteq> CHR ''_''"
proof -
  obtain ds where "list_all (\<lambda>d. d < 10) ds" "decimal m = map digit_char ds"
    using decimal_digits [of m] by blast
  then show ?thesis using digits_plain(5) [of ds ch] assms by simp
qed

lemma number_body_no_underscore:
  assumes sd: "shortest_digits ds"
  shows "CHR ''_'' \<notin> set (number_body ds n)"
proof -
  let ?D = "map digit_char ds"
  have D: "CHR ''_'' \<notin> set ?D"
    using digits_plain(5) [OF shortest_digitsD(2) [OF sd]] by blast
  have T: "CHR ''_'' \<notin> set (take i ?D)" "CHR ''_'' \<notin> set (drop i ?D)" for i
    using D in_set_takeD in_set_dropD by fast+
  have E: "CHR ''_'' \<notin> set (decimal m)" for m using decimal_plain by blast
  show ?thesis
  proof (cases rule: number_body_cases [OF shortest_digitsD(1) [OF sd], of n])
    case (1 m)
    then show ?thesis using D by auto
  next
    case (2 i)
    then show ?thesis using T [of i] by auto
  next
    case (3 m)
    then show ?thesis using D by auto
  next
    case (4 c m)
    then show ?thesis using D E [of m] by auto
  next
    case (5 c m)
    then show ?thesis using T [of 1] E [of m] by auto
  qed
qed

lemma Number_toString_no_underscore:
  assumes "proper_number x"
  shows "CHR ''_'' \<notin> set (Number_toString x)"
proof (cases x)
  case (JsFinite negative ds n)
  then have "shortest_digits ds" using assms by simp
  then have "CHR ''_'' \<notin> set (number_body ds n)" by (rule number_body_no_underscore)
  then show ?thesis using JsFinite by simp
qed auto

lemma number_body_not_zero:
  assumes sd: "shortest_digits ds"
  shows "number_body ds n \<noteq> ''0''"
proof
  assume "number_body ds n = ''0''"
  then have "read_body ''0'' = (ds, n)" using read_body_number_body [OF sd, of n] by simp
  moreover have "fst (read_body ''0'') = []" by (simp add: read_body_def digit_value_zero)
  ultimately show False using shortest_digitsD(1) [OF sd] by simp
qed

lemma number_body_inj:
  assumes "shortest_digits ds" and "shortest_digits ds'" and "number_body ds n = number_body ds' n'"
  shows "ds = ds' \<and> n = n'"
proof -
  have "(ds, n) = read_body (number_body ds n)"
    by (simp only: read_body_number_body [OF assms(1)])
  also have "\<dots> = read_body (number_body ds' n')"
    by (simp only: assms(3))
  also have "\<dots> = (ds', n')"
    by (rule read_body_number_body [OF assms(2)])
  finally show ?thesis by simp
qed

lemma finite_not_special:
  assumes sd: "shortest_digits ds"
  shows "Number_toString (JsFinite neg ds n) \<noteq> ''NaN''"
    and "Number_toString (JsFinite neg ds n) \<noteq> ''0''"
    and "Number_toString (JsFinite neg ds n) \<noteq> ''Infinity''"
    and "Number_toString (JsFinite neg ds n) \<noteq> ''-Infinity''"
proof -
  obtain d rest where d: "d < 10" and b: "number_body ds n = digit_char d # rest"
    using number_body_first [OF sd, of n] by blast
  note q = digit_char_neq [OF d]
  show "Number_toString (JsFinite neg ds n) \<noteq> ''NaN''"
    using b q by (cases neg) auto
  show "Number_toString (JsFinite neg ds n) \<noteq> ''0''"
    using b number_body_not_zero [OF sd, of n] by (cases neg) auto
  show "Number_toString (JsFinite neg ds n) \<noteq> ''Infinity''"
    using b q by (cases neg) auto
  show "Number_toString (JsFinite neg ds n) \<noteq> ''-Infinity''"
    using b q by (cases neg) auto
qed

lemma finite_inj:
  assumes sd: "shortest_digits ds" and sd': "shortest_digits ds'"
    and "Number_toString (JsFinite neg ds n) = Number_toString (JsFinite neg' ds' n')"
  shows "neg = neg' \<and> ds = ds' \<and> n = n'"
proof -
  obtain d rest where d: "d < 10" and b: "number_body ds n = digit_char d # rest"
    using number_body_first [OF sd, of n] by blast
  obtain d' rest' where d': "d' < 10" and b': "number_body ds' n' = digit_char d' # rest'"
    using number_body_first [OF sd', of n'] by blast
  have "neg = neg'"
    using assms(3) b b' digit_char_neq(3) [OF d] digit_char_neq(3) [OF d']
    by (cases neg; cases neg') auto
  moreover from this have "number_body ds n = number_body ds' n'"
    using assms(3) by simp
  ultimately show ?thesis using number_body_inj [OF sd sd'] by simp
qed

lemma special_not_finite:
  assumes "proper_number y" and "Number_toString y = s"
    and "s = ''NaN'' \<or> s = ''0'' \<or> s = ''Infinity'' \<or> s = ''-Infinity''"
  shows "\<forall>neg ds n. y \<noteq> JsFinite neg ds n"
proof (intro allI notI)
  fix neg ds n
  assume y: "y = JsFinite neg ds n"
  then have sd: "shortest_digits ds" using assms(1) by simp
  show False
    using finite_not_special [OF sd, of neg n] assms(2,3) y by blast
qed

lemma special_inj:
  assumes "\<forall>neg ds n. x \<noteq> JsFinite neg ds n" and "\<forall>neg ds n. y \<noteq> JsFinite neg ds n"
    and "Number_toString x = Number_toString y"
  shows "x = y"
proof (cases x)
  case (JsFinite neg ds n)
  then show ?thesis using assms(1) by blast
next
  case JsNaN
  show ?thesis
  proof (cases y)
    case (JsFinite neg ds n)
    then show ?thesis using assms(2) by blast
  qed (use assms(3) JsNaN in \<open>simp_all split: if_splits\<close>)
next
  case JsZero
  show ?thesis
  proof (cases y)
    case (JsFinite neg ds n)
    then show ?thesis using assms(2) by blast
  qed (use assms(3) JsZero in \<open>simp_all split: if_splits\<close>)
next
  case (JsInfinity negative)
  show ?thesis
  proof (cases y)
    case (JsFinite neg ds n)
    then show ?thesis using assms(2) by blast
  qed (use assms(3) JsInfinity in \<open>simp_all split: if_splits\<close>)
qed

lemma special_string:
  assumes "\<forall>neg ds n. x \<noteq> JsFinite neg ds n"
  shows "Number_toString x = ''NaN'' \<or> Number_toString x = ''0'' \<or>
         Number_toString x = ''Infinity'' \<or> Number_toString x = ''-Infinity''"
proof (cases x)
  case (JsFinite neg ds n)
  then show ?thesis using assms by blast
qed simp_all

lemma Number_toString_inj:
  assumes "proper_number x" and "proper_number y" and "Number_toString x = Number_toString y"
  shows "x = y"
proof (cases "\<exists>neg ds n. x = JsFinite neg ds n")
  case True
  then obtain neg ds n where x: "x = JsFinite neg ds n" by blast
  then have sd: "shortest_digits ds" using assms(1) by simp
  show ?thesis
  proof (cases "\<exists>neg' ds' n'. y = JsFinite neg' ds' n'")
    case True
    then obtain neg' ds' n' where y: "y = JsFinite neg' ds' n'" by blast
    then have sd': "shortest_digits ds'" using assms(2) by simp
    have "Number_toString (JsFinite neg ds n) = Number_toString (JsFinite neg' ds' n')"
      using assms(3) x y by (simp only:)
    from finite_inj [OF sd sd' this] show ?thesis using x y by simp
  next
    case False
    then have "\<forall>neg ds n. y \<noteq> JsFinite neg ds n" by blast
    from special_string [OF this] special_not_finite [OF assms(1) assms(3)]
    show ?thesis using x by blast
  qed
next
  case False
  then have nx: "\<forall>neg ds n. x \<noteq> JsFinite neg ds n" by blast
  show ?thesis
  proof (cases "\<exists>neg' ds' n'. y = JsFinite neg' ds' n'")
    case True
    from special_string [OF nx] special_not_finite [OF assms(2) assms(3) [symmetric]]
    show ?thesis using True by blast
  next
    case False
    then have "\<forall>neg ds n. y \<noteq> JsFinite neg ds n" by blast
    from special_inj [OF nx this assms(3)] show ?thesis .
  qed
qed

lemma joined_inj:
  assumes "x \<notin> set a" and "x \<notin> set a'" and "a @ x # b = a' @ x # b'"
  shows "a = a' \<and> b = b'"
proof -
  have 1: "\<forall>ch\<in>set a. ch \<noteq> x" and 2: "\<forall>ch\<in>set a'. ch \<noteq> x" using assms(1,2) by auto
  have "takeWhile (\<lambda>c. c \<noteq> x) (a @ x # b) = a" by (rule split_at(1) [OF 1])
  moreover have "takeWhile (\<lambda>c. c \<noteq> x) (a' @ x # b') = a'" by (rule split_at(1) [OF 2])
  ultimately have "a = a'" using assms(3) by simp
  then show ?thesis using assms(3) by simp
qed

lemma reverse_cacheKey_inj:
  assumes "proper_number la" "proper_number lo" "proper_number la'" "proper_number lo'"
  shows "(reverse_cacheKey la lo = reverse_cacheKey la' lo') = (la = la' \<and> lo = lo')"
proof
  assume "reverse_cacheKey la lo = reverse_cacheKey la' lo'"
  then have "Number_toString la @ CHR ''_'' # Number_toString lo =
             Number_toString la' @ CHR ''_'' # Number_toString lo'"
    by (simp add: reverse_cacheKey_def)
  then have "Number_toString la = Number_toString la' \<and> Number_toString lo = Number_toString lo'"
    by (rule joined_inj [OF Number_toString_no_underscore [OF assms(1)]
          Number_toString_no_underscore [OF assms(3)]])
  then show "la = la' \<and> lo = lo'"
    using Number_toString_inj assms by blast
qed simp

subsection \<open>Key scheme\<close>

text \<open>
  Claim C8. A provider's key is the operation name \<open>geocode\<close>, the provider name and
  the base64 encoding of the location text, a function of the text alone; the
  encoding is the one of RFC 4648, with its test vectors. Keys of different
  providers differ, whatever the texts; for one provider, different texts have
  different keys. The key of reverse geocoding is \<open>reverse_geocode_\<close> followed by the
  two coordinates as \<open>Number::toString\<close> prints them, and differs from every provider
  key. The coordinates are not rounded: two pairs of coordinates have the same key
  only if they are the same pair.
\<close>

theorem cacheKey_scheme:
  "google_cacheKey place = ''geocode_google_'' @ base64 place \<and>
   mapbox_cacheKey place = ''geocode_mapbox_'' @ base64 place \<and>
   osm_cacheKey place = ''geocode_osm_'' @ base64 place \<and>
   base64 place = base64_rfc place \<and>
   base64 [] = [] \<and> base64 ''f'' = ''Zg=='' \<and> base64 ''fo'' = ''Zm8='' \<and>
   base64 ''foo'' = ''Zm9v'' \<and> base64 ''foob'' = ''Zm9vYg=='' \<and>
   base64 ''fooba'' = ''Zm9vYmE='' \<and> base64 ''foobar'' = ''Zm9vYmFy'' \<and>
   google_cacheKey a \<noteq> mapbox_cacheKey b \<and>
   google_cacheKey a \<noteq> osm_cacheKey b \<and>
   mapbox_cacheKey a \<noteq> osm_cacheKey b \<and>
   (google_cacheKey a = google_cacheKey b) = (a = b) \<and>
   (mapbox_cacheKey a = mapbox_cacheKey b) = (a = b) \<and>
   (osm_cacheKey a = osm_cacheKey b) = (a = b) \<and>
   reverse_cacheKey la lo = ''reverse_geocode_'' @ Number_toString la @ ''_'' @ Number_toString lo \<and>
   reverse_cacheKey la lo \<noteq> google_cacheKey a \<and>
   reverse_cacheKey la lo \<noteq> mapbox_cacheKey a \<and>
   reverse_cacheKey la lo \<noteq> osm_cacheKey a \<and>
   (proper_number la \<and> proper_number lo \<and> proper_number la' \<and> proper_number lo' \<longrightarrow>
      (reverse_cacheKey la lo = reverse_cacheKey la' lo') = (la = la' \<and> lo = lo'))"
proof -
  have keys: "google_cacheKey place = ''geocode_google_'' @ base64 place"
    "mapbox_cacheKey place = ''geocode_mapbox_'' @ base64 place"
    "osm_cacheKey place = ''geocode_osm_'' @ base64 place"
    by (simp_all add: google_cacheKey_def mapbox_cacheKey_def osm_cacheKey_def)
  have vectors: "base64 [] = []" "base64 ''f'' = ''Zg==''" "base64 ''fo'' = ''Zm8=''"
    "base64 ''foo'' = ''Zm9v''" "base64 ''foob'' = ''Zm9vYg==''"
    "base64 ''fooba'' = ''Zm9vYmE=''" "base64 ''foobar'' = ''Zm9vYmFy''"
    by (simp_all add: base64_def b64_digit_def b64_alphabet_def)
  have apart: "google_cacheKey a \<noteq> mapbox_cacheKey b" "google_cacheKey a \<noteq> osm_cacheKey b"
    "mapbox_cacheKey a \<noteq> osm_cacheKey b"
    by (simp_all add: google_cacheKey_def mapbox_cacheKey_def osm_cacheKey_def)
  have inj: "(google_cacheKey a = google_cacheKey b) = (a = b)"
    "(mapbox_cacheKey a = mapbox_cacheKey b) = (a = b)"
    "(osm_cacheKey a = osm_cacheKey b) = (a = b)"
    by (simp_all add: google_cacheKey_def mapbox_cacheKey_def osm_cacheKey_def base64_inj)
  have reverse: "reverse_cacheKey la lo =
      ''reverse_geocode_'' @ Number_toString la @ ''_'' @ Number_toString lo"
    by (simp add: reverse_cacheKey_def)
  have other: "reverse_cacheKey la lo \<noteq> google_cacheKey a"
    "reverse_cacheKey la lo \<noteq> mapbox_cacheKey a" "reverse_cacheKey la lo \<noteq> osm_cacheKey a"
    by (simp_all add: reverse_cacheKey_def google_cacheKey_def mapbox_cacheKey_def
          osm_cacheKey_def)
  have exact: "proper_number la \<and> proper_number lo \<and> proper_number la' \<and> proper_number lo' \<longrightarrow>
      (reverse_cacheKey la lo = reverse_cacheKey la' lo') = (la = la' \<and> lo = lo')"
    by (intro impI reverse_cacheKey_inj) simp_all
  show ?thesis
    by (intro conjI keys base64_rfc_eq vectors apart inj reverse other exact)
qed

lemma proper_examples:
  "proper_number (JsFinite False [4, 0, 7, 1, 2, 8] 2)"
  "proper_number (JsFinite True [7, 4, 0, 0, 6] 2)"
  "proper_number (JsFinite False [4, 0, 7, 1, 3] 2)"
  "JsFinite False [4, 0, 7, 1, 2, 8] 2 \<noteq> JsFinite False [4, 0, 7, 1, 3] 2"
  by (simp_all add: shortest_digits_def)

theorem cacheKey_scheme_witness:
  "proper_number (JsFinite False [4, 0, 7, 1, 2, 8] 2) \<and>
   proper_number (JsFinite True [7, 4, 0, 0, 6] 2) \<and>
   proper_number (JsFinite False [4, 0, 7, 1, 3] 2) \<and>
   reverse_cacheKey (JsFinite False [4, 0, 7, 1, 2, 8] 2) (JsFinite True [7, 4, 0, 0, 6] 2) \<noteq>
   reverse_cacheKey (JsFinite False [4, 0, 7, 1, 3] 2) (JsFinite True [7, 4, 0, 0, 6] 2) \<and>
   reverse_cacheKey (JsFinite False [4, 0, 7, 1, 2, 8] 2) (JsFinite True [7, 4, 0, 0, 6] 2) \<noteq>
   google_cacheKey ''Manhattan, NYC''"
  using cacheKey_scheme [where la = "JsFinite False [4, 0, 7, 1, 2, 8] 2"
      and lo = "JsFinite True [7, 4, 0, 0, 6] 2" and la' = "JsFinite False [4, 0, 7, 1, 3] 2"
      and lo' = "JsFinite True [7, 4, 0, 0, 6] 2" and a = "''Manhattan, NYC''"
      and b = "[]" and place = "[]"]
    proper_examples
  by blast

text \<open>
  The coordinates \<open>40.7128\<close> and \<open>40.71280000000001\<close> are the same after rounding to
  any number of decimal places up to thirteen, and their keys differ: the key is
  not built from rounded coordinates.
\<close>

lemma reverse_cacheKey_examples:
  "reverse_cacheKey (JsFinite False [4, 0, 7, 1, 2, 8] 2) (JsFinite True [7, 4, 0, 0, 6] 2) =
     ''reverse_geocode_40.7128_-74.006''"
  "reverse_cacheKey (JsFinite False [4, 0, 7, 1, 2, 8, 0, 0, 0, 0, 0, 0, 0, 0, 0, 1] 2)
     (JsFinite True [7, 4, 0, 0, 6] 2) = ''reverse_geocode_40.71280000000001_-74.006''"
  by code_simp+

lemma number_value_examples:
  "number_value (JsFinite False [4, 0, 7, 1, 2, 8] 2) = Some (407128 / 10000)"
  "number_value (JsFinite False [4, 0, 7, 1, 2, 8, 0, 0, 0, 0, 0, 0, 0, 0, 0, 1] 2) =
     Some (4071280000000001 / 100000000000000)"
  by (simp_all add: digits_value_def)

lemma rounded_examples:
  "list_all
     (\<lambda>d. map_option (rounded_to d) (number_value (JsFinite False [4, 0, 7, 1, 2, 8] 2)) =
          map_option (rounded_to d)
            (number_value (JsFinite False [4, 0, 7, 1, 2, 8, 0, 0, 0, 0, 0, 0, 0, 0, 0, 1] 2)))
     [0, 1, 2, 3, 4, 5, 6, 7, 8, 9, 10, 11, 12, 13]"
  by (simp add: digits_value_def rounded_to_def)

theorem reverse_cacheKey_not_rounded:
  "list_all
     (\<lambda>d. map_option (rounded_to d) (number_value (JsFinite False [4, 0, 7, 1, 2, 8] 2)) =
          map_option (rounded_to d)
            (number_value (JsFinite False [4, 0, 7, 1, 2, 8, 0, 0, 0, 0, 0, 0, 0, 0, 0, 1] 2)))
     [0, 1, 2, 3, 4, 5, 6, 7, 8, 9, 10, 11, 12, 13] \<and>
   reverse_cacheKey (JsFinite False [4, 0, 7, 1, 2, 8] 2) (JsFinite True [7, 4, 0, 0, 6] 2) =
     ''reverse_geocode_40.7128_-74.006'' \<and>
   reverse_cacheKey (JsFinite False [4, 0, 7, 1, 2, 8, 0, 0, 0, 0, 0, 0, 0, 0, 0, 1] 2)
     (JsFinite True [7, 4, 0, 0, 6] 2) = ''reverse_geocode_40.71280000000001_-74.006'' \<and>
   reverse_cacheKey (JsFinite False [4, 0, 7, 1, 2, 8] 2) (JsFinite True [7, 4, 0, 0, 6] 2) \<noteq>
   reverse_cacheKey (JsFinite False [4, 0, 7, 1, 2, 8, 0, 0, 0, 0, 0, 0, 0, 0, 0, 1] 2)
     (JsFinite True [7, 4, 0, 0, 6] 2)"
proof (intro conjI)
  show "reverse_cacheKey (JsFinite False [4, 0, 7, 1, 2, 8] 2) (JsFinite True [7, 4, 0, 0, 6] 2) \<noteq>
    reverse_cacheKey (JsFinite False [4, 0, 7, 1, 2, 8, 0, 0, 0, 0, 0, 0, 0, 0, 0, 1] 2)
      (JsFinite True [7, 4, 0, 0, 6] 2)"
    unfolding reverse_cacheKey_examples by simp
qed (rule rounded_examples reverse_cacheKey_examples)+

text \<open>The encoding of a sample text, and the Google key built from it.\<close>

lemma base64_example: "base64 ''Manhattan, NYC'' = ''TWFuaGF0dGFuLCBOWUM=''"
  by (simp add: base64_def b64_digit_def b64_alphabet_def)

lemma google_cacheKey_example:
  "google_cacheKey ''Manhattan, NYC'' = ''geocode_google_TWFuaGF0dGFuLCBOWUM=''"
  by (simp add: google_cacheKey_def base64_example)

section \<open>Properties of the aggregation\<close>

subsection \<open>Sorting with a comparator\<close>

lemma mset_insert_by: "mset (insert_by cmp x ys) = add_mset x (mset ys)"
  by (induction ys) simp_all

lemma mset_array_sort: "mset (array_sort cmp xs) = mset xs"
  unfolding array_sort_def by (induction xs) (simp_all add: mset_insert_by)

lemma set_insert_by: "set (insert_by cmp x ys) = insert x (set ys)"
  by (induction ys) auto

lemma sorted_insert_by:
  assumes total: "\<And>a b. cmp a b \<le> 0 \<or> cmp b a \<le> 0"
    and trans: "\<And>a b c. cmp a b \<le> 0 \<Longrightarrow> cmp b c \<le> 0 \<Longrightarrow> cmp a c \<le> 0"
    and "sorted_wrt (\<lambda>a b. cmp a b \<le> 0) ys"
  shows "sorted_wrt (\<lambda>a b. cmp a b \<le> 0) (insert_by cmp x ys)"
  using assms(3)
proof (induction ys)
  case Nil
  then show ?case by simp
next
  case (Cons y ys)
  show ?case
  proof (cases "cmp x y \<le> 0")
    case True
    have "\<forall>z\<in>set ys. cmp x z \<le> 0"
      using Cons.prems True trans by auto
    then show ?thesis using True Cons.prems by simp
  next
    case False
    then have yx: "cmp y x \<le> 0" using total [of x y] by simp
    have "sorted_wrt (\<lambda>a b. cmp a b \<le> 0) (insert_by cmp x ys)"
      using Cons.IH Cons.prems by simp
    then show ?thesis using False yx Cons.prems by (simp add: set_insert_by)
  qed
qed

lemma sorted_array_sort:
  assumes total: "\<And>a b. cmp a b \<le> 0 \<or> cmp b a \<le> 0"
    and trans: "\<And>a b c. cmp a b \<le> 0 \<Longrightarrow> cmp b c \<le> 0 \<Longrightarrow> cmp a c \<le> 0"
  shows "sorted_wrt (\<lambda>a b. cmp a b \<le> 0) (array_sort cmp xs)"
proof (induction xs)
  case Nil
  then show ?case by (simp add: array_sort_def)
next
  case (Cons x xs)
  have "array_sort cmp (x # xs) = insert_by cmp x (array_sort cmp xs)"
    by (simp add: array_sort_def)
  then show ?case using sorted_insert_by [OF total trans Cons.IH] by simp
qed

subsection \<open>The two comparators\<close>

lemma priorityOrder_inj: "(priorityOrder p = priorityOrder q) = (p = q)"
  by (cases p; cases q) simp_all

lemma priorityOrder_range: "0 \<le> priorityOrder p \<and> priorityOrder p \<le> 3"
  by (cases p) simp_all

lemma priorityOrder_Critical: "(priorityOrder p = 3) = (p = Critical)"
  by (cases p) simp_all

lemma compare_updates_le:
  "(compare_updates a b \<le> 0) =
     (priorityOrder (priority b) < priorityOrder (priority a) \<or>
      priority a = priority b \<and> published_at b \<le> published_at a)"
proof -
  have "(compare_updates a b \<le> 0) =
     (priorityOrder (priority b) < priorityOrder (priority a) \<or>
      priorityOrder (priority a) = priorityOrder (priority b) \<and> published_at b \<le> published_at a)"
    by (auto simp add: compare_updates_def)
  then show ?thesis by (simp add: priorityOrder_inj)
qed

lemma compare_posts_le:
  "(compare_posts a b \<le> 0) =
     (post_priority b < post_priority a \<or>
      post_priority a = post_priority b \<and> post_timestamp b \<le> post_timestamp a)"
  by (auto simp add: compare_posts_def)

lemma sorted_sortedUpdates:
  "sorted_wrt (\<lambda>a b. compare_updates a b \<le> 0) (sortedUpdates xs)"
  unfolding sortedUpdates_def
proof (rule sorted_array_sort)
  show "compare_updates a b \<le> 0 \<or> compare_updates b a \<le> 0" for a b
    using priorityOrder_inj [of "priority a" "priority b"] by (auto simp add: compare_updates_le)
  show "compare_updates a c \<le> 0" if "compare_updates a b \<le> 0" and "compare_updates b c \<le> 0" for a b c
    using that by (auto simp add: compare_updates_le)
qed

lemma sorted_sortedPosts:
  "sorted_wrt (\<lambda>a b. compare_posts a b \<le> 0) (sortedPosts ps)"
  unfolding sortedPosts_def
proof (rule sorted_array_sort)
  show "compare_posts a b \<le> 0 \<or> compare_posts b a \<le> 0" for a b
    by (auto simp add: compare_posts_le)
  show "compare_posts a c \<le> 0" if "compare_posts a b \<le> 0" and "compare_posts b c \<le> 0" for a b c
    using that by (auto simp add: compare_posts_le)
qed

lemma critical_first:
  assumes "sorted_wrt (\<lambda>a b. compare_updates a b \<le> 0) ys"
    and "i < length ys" and "j < length ys"
    and "priority (ys ! i) = Critical" and "priority (ys ! j) \<noteq> Critical"
  shows "i < j"
proof (rule ccontr)
  assume "\<not> i < j"
  moreover have "i \<noteq> j" using assms(4,5) by auto
  ultimately have "j < i" by simp
  then have "compare_updates (ys ! j) (ys ! i) \<le> 0"
    using assms(1,2) by (simp add: sorted_wrt_iff_nth_less)
  then have "priorityOrder (priority (ys ! j)) = 3"
    using assms(4) priorityOrder_range [of "priority (ys ! j)"]
    by (auto simp add: compare_updates_le)
  then show False using assms(5) by (simp add: priorityOrder_Critical)
qed

text \<open>
  Claim C6. The sorted updates are a rearrangement of the input in which every
  item is followed only by items of lower priority rank
  (\<open>critical > high > medium > low\<close>), or of the same priority and not newer. So a
  critical item stands before every item that is not critical, whatever the
  timestamps. The sorted posts are ordered in the same way by the numeric
  priority, then by timestamp, newest first.
\<close>

theorem sort_contract:
  "sorted_wrt (\<lambda>a b. priorityOrder (priority b) < priorityOrder (priority a) \<or>
                    priority a = priority b \<and> published_at b \<le> published_at a)
     (sortedUpdates xs) \<and>
   mset (sortedUpdates xs) = mset xs \<and>
   (\<forall>i j. i < length (sortedUpdates xs) \<and> j < length (sortedUpdates xs) \<and>
          priority (sortedUpdates xs ! i) = Critical \<and>
          priority (sortedUpdates xs ! j) \<noteq> Critical \<longrightarrow> i < j) \<and>
   sorted_wrt (\<lambda>a b. post_priority b < post_priority a \<or>
                    post_priority a = post_priority b \<and> post_timestamp b \<le> post_timestamp a)
     (sortedPosts ps) \<and>
   mset (sortedPosts ps) = mset ps"
proof (intro conjI allI impI)
  show "sorted_wrt (\<lambda>a b. priorityOrder (priority b) < priorityOrder (priority a) \<or>
                    priority a = priority b \<and> published_at b \<le> published_at a)
     (sortedUpdates xs)"
    using sorted_sortedUpdates [of xs] by (simp add: compare_updates_le)
  show "mset (sortedUpdates xs) = mset xs"
    by (simp add: sortedUpdates_def mset_array_sort)
  show "i < j"
    if "i < length (sortedUpdates xs) \<and> j < length (sortedUpdates xs) \<and>
        priority (sortedUpdates xs ! i) = Critical \<and>
        priority (sortedUpdates xs ! j) \<noteq> Critical" for i j
    using that critical_first [OF sorted_sortedUpdates, of i xs j] by blast
  show "sorted_wrt (\<lambda>a b. post_priority b < post_priority a \<or>
                    post_priority a = post_priority b \<and> post_timestamp b \<le> post_timestamp a)
     (sortedPosts ps)"
    using sorted_sortedPosts [of ps] by (simp add: compare_posts_le)
  show "mset (sortedPosts ps) = mset ps"
    by (simp add: sortedPosts_def mset_array_sort)
qed

text \<open>Updates \<open>[low, critical, high]\<close>, the critical one the oldest: it comes first.\<close>

theorem sort_contract_witness:
  "sortedUpdates [upd_low, upd_critical, upd_high] = [upd_critical, upd_high, upd_low] \<and>
   mset (sortedUpdates [upd_low, upd_critical, upd_high]) = mset [upd_low, upd_critical, upd_high]"
proof -
  have a: "sortedUpdates [upd_low, upd_critical, upd_high] = [upd_critical, upd_high, upd_low]"
    by (simp add: sortedUpdates_def array_sort_def compare_updates_def
          upd_low_def upd_critical_def upd_high_def)
  have b: "mset (sortedUpdates [upd_low, upd_critical, upd_high]) = mset [upd_low, upd_critical, upd_high]"
    using sort_contract [of "[upd_low, upd_critical, upd_high]" "[]"] by blast
  show ?thesis using a b by (rule conjI)
qed

subsection \<open>Priority score\<close>

text \<open>
  Claim C7. For every post and analysis, \<open>calculatePriority\<close> returns a score between
  the base score 5 and the cap 10, both included.
\<close>

theorem calculatePriority_bounds:
  "5 \<le> calculatePriority p a \<and> calculatePriority p a \<le> 10"
  by (simp add: calculatePriority_def Let_def)

text \<open>Both bounds are attained.\<close>

lemma calculatePriority_least:
  "calculatePriority
     \<lparr>post_id = ''mock_2'', user = ''volunteer_helper'', username = ''@volunteer_nyc'',
      content = ''Offering shelter for displaced families in Manhattan.'', post_timestamp = 0,
      location = ''Manhattan, NYC'', media = [],
      engagement = \<lparr>likes = 25, retweets = 12, replies = 7\<rparr>\<rparr>
     \<lparr>urgency = ''none'', contentType = ''offer''\<rparr> = 5"
  by code_simp

lemma calculatePriority_capped:
  "calculatePriority
     \<lparr>post_id = ''mock_4'', user = ''local_resident'', username = ''@queens_local'',
      content = ''Need evacuation help for elderly neighbors. #SOS #FloodEmergency'', post_timestamp = 0,
      location = ''Queens, NYC'', media = [],
      engagement = \<lparr>likes = 42, retweets = 28, replies = 15\<rparr>\<rparr>
     \<lparr>urgency = ''critical'', contentType = ''help_request''\<rparr> = 10"
  by (simp add: calculatePriority_def Let_def)

end
